theory Spec2Isabelle
  imports Main "HOL-Library.AList"
begin

section \<open>JavaScript values and objects\<close>

text \<open>
  The engine of \<^verbatim>\<open>packages/core/src/jrpcengine.ts\<close> receives a request of type
  \<^verbatim>\<open>unknown\<close> and inspects it with \<^verbatim>\<open>!callerReq\<close>, \<^verbatim>\<open>Array.isArray\<close> and
  \<^verbatim>\<open>typeof\<close>, so requests are values of a small JavaScript value type. An object is an
  association list from property names to values; a property that is present with the
  value \<^verbatim>\<open>undefined\<close> is different from an absent one (\<^verbatim>\<open>"error" in res\<close> tells them
  apart). Numbers are integers (no NaN), and function values do not occur as data:
  the functions the engine calls (middleware, return handlers) have types of their own.

  An array or object occurs in two ways. Written out (\<open>Arr\<close>, \<open>Obj\<close>) it is a constant: data
  that nobody changes in place. \<open>Ref a\<close> is a reference to the array or object number \<open>a\<close>,
  which can be changed in place; copying the value \<open>Ref a\<close> copies the reference, so both
  holders share the object. The request handed to the engine is given by value, \<open>Obj ps\<close>
  standing for the caller's object with the own properties \<open>ps\<close>; what its properties
  refer to are constants or references.
\<close>

datatype jsval =
    Undefined
  | Null
  | Bool bool
  | Num int
  | Str string
  | Arr "jsval list"
  | Obj "(string \<times> jsval) list"
  | Ref nat

type_synonym obj = "(string \<times> jsval) list"

text \<open>Truthiness, as used by \<^verbatim>\<open>!x\<close>, \<^verbatim>\<open>x || y\<close> and \<^verbatim>\<open>if (x)\<close>.\<close>

fun truthy :: "jsval \<Rightarrow> bool" where
  "truthy Undefined = False"
| "truthy Null = False"
| "truthy (Bool b) = b"
| "truthy (Num n) = (n \<noteq> 0)"
| "truthy (Str s) = (s \<noteq> [])"
| "truthy (Arr vs) = True"
| "truthy (Obj ps) = True"
| "truthy (Ref a) = True"

fun typeof :: "jsval \<Rightarrow> string" where
  "typeof Undefined = ''undefined''"
| "typeof Null = ''object''"
| "typeof (Bool b) = ''boolean''"
| "typeof (Num n) = ''number''"
| "typeof (Str s) = ''string''"
| "typeof (Arr vs) = ''object''"
| "typeof (Obj ps) = ''object''"
| "typeof (Ref a) = ''object''"

fun isArray :: "jsval \<Rightarrow> bool" where
  "isArray (Arr vs) = True"
| "isArray v = False"

text \<open>
  The own properties of a value: those of an object given by value, none for anything else
  (the properties of a shared object are not part of the value that refers to it).
\<close>

fun own_props :: "jsval \<Rightarrow> obj" where
  "own_props (Obj ps) = ps"
| "own_props v = []"

text \<open>\<^verbatim>\<open>k in o\<close>, \<^verbatim>\<open>o.k\<close> (\<^verbatim>\<open>undefined\<close> when absent), \<^verbatim>\<open>o.k = v\<close> and \<^verbatim>\<open>delete o.k\<close>.\<close>

definition has :: "string \<Rightarrow> obj \<Rightarrow> bool" where
  "has k ob = (map_of ob k \<noteq> None)"

definition get :: "string \<Rightarrow> obj \<Rightarrow> jsval" where
  "get k ob = (case map_of ob k of None \<Rightarrow> Undefined | Some v \<Rightarrow> v)"

definition put :: "string \<Rightarrow> jsval \<Rightarrow> obj \<Rightarrow> obj" where
  "put k v ob = AList.update k v ob"

definition del :: "string \<Rightarrow> obj \<Rightarrow> obj" where
  "del k ob = AList.delete k ob"

section \<open>Promises\<close>

datatype 'a promise = Resolved 'a | Rejected jsval | Pending

text \<open>A promise settles once: later calls of \<^verbatim>\<open>resolve\<close> or \<^verbatim>\<open>reject\<close> are ignored.\<close>

fun settle :: "'a promise \<Rightarrow> 'a promise \<Rightarrow> 'a promise" where
  "settle new Pending = new"
| "settle new old = old"

text \<open>\<^verbatim>\<open>Promise.all\<close>: the first rejection wins, else any pending promise keeps the whole
  pending, else the list of values in the order of the promises.\<close>

fun promise_all :: "'a promise list \<Rightarrow> 'a list promise" where
  "promise_all [] = Resolved []"
| "promise_all (Rejected e # ps) = Rejected e"
| "promise_all (Pending # ps) =
     (case promise_all ps of Rejected e \<Rightarrow> Rejected e | other \<Rightarrow> Pending)"
| "promise_all (Resolved v # ps) =
     (case promise_all ps of
        Resolved vs \<Rightarrow> Resolved (v # vs)
      | Rejected e \<Rightarrow> Rejected e
      | Pending \<Rightarrow> Pending)"

section \<open>Collaborators that are not part of the engine\<close>

text \<open>
  \<^verbatim>\<open>serializeError\<close> (\<^verbatim>\<open>./utils\<close>) and the class \<^verbatim>\<open>SerializableError\<close>
  (\<^verbatim>\<open>./serializableError\<close>) are imported by the engine. They are parameters of the model:
  \<^verbatim>\<open>serializeError\<close> maps any value to an error object, and
  \<^verbatim>\<open>new SerializableError({ message })\<close> builds an object from the message.
\<close>

record ext =
  serializeError :: "jsval \<Rightarrow> obj"
  newSerializableError :: "string \<Rightarrow> obj"

text \<open>The \<^verbatim>\<open>TypeError\<close> the runtime throws when a value that is not a function is called.\<close>

definition notAFunction :: jsval where
  "notAFunction = Obj [(''name'', Str ''TypeError''), (''message'', Str ''handler is not a function'')]"

section \<open>Middleware and return handlers\<close>

text \<open>
  Middleware and return handlers are the caller's code. The model describes what one call of
  such a function does, under three conventions. A call runs to its end before the engine
  goes on (what a function does after its first signal still happens before the engine
  resumes, as for a plain synchronous function). What a call does depends only on the
  properties of the request and response it finds, not on earlier calls and not on what
  a shared object currently holds. A call can write and delete properties of the request
  and the response, and it can change in place an array or object it has a reference to
  (\<^verbatim>\<open>req.params.push(2)\<close>): \<open>Mutate a v\<close> leaves the object number \<open>a\<close> reading \<open>v\<close>.
\<close>

text \<open>
  A return handler is a function \<^verbatim>\<open>(done) => ...\<close> that can read and write the request and
  the response it closes over. Its behaviour in one call is the list of things it does, in
  order, computed from the request and response at the moment it is called:
  property writes and deletes, changes in place of shared objects, calls of the callback
  it was given, and a synchronous \<^verbatim>\<open>throw\<close>, which ends the call. A handler that lists
  no \<open>HCallback\<close> and no \<open>HThrow\<close> never signals.
\<close>

datatype haction =
    HResWrite string jsval
  | HResDelete string
  | HReqWrite string jsval
  | HReqDelete string
  | HCallback jsval
  | HThrow jsval
  | HMutate nat jsval

text \<open>
  What a middleware hands to \<^verbatim>\<open>next\<close>, and what \<^verbatim>\<open>returnHandlers\<close> holds: a handler
  function (\<open>Fn\<close>), the closure that \<^verbatim>\<open>asMiddleware\<close> passes to the outer \<^verbatim>\<open>next\<close>
  (\<open>Forward\<close>, closing over the inner engine's return handlers), or a value that is not a
  function (\<open>NotFn\<close>; \<open>NotFn Undefined\<close> is \<^verbatim>\<open>next()\<close> without argument).
\<close>

datatype rhandler =
    Fn "obj \<Rightarrow> obj \<Rightarrow> haction list"
  | Forward "rhandler list"
  | NotFn jsval

fun rh_truthy :: "rhandler \<Rightarrow> bool" where
  "rh_truthy (NotFn v) = truthy v"
| "rh_truthy h = True"

fun is_function :: "rhandler \<Rightarrow> bool" where
  "is_function (NotFn v) = False"
| "is_function h = True"

text \<open>
  A middleware \<^verbatim>\<open>(req, res, next, end) => ...\<close> likewise: its turn is the list of things it
  does, computed from the request and response it is called with. The list may go on after
  the first call of \<^verbatim>\<open>next\<close> or \<^verbatim>\<open>end\<close>; a \<^verbatim>\<open>throw\<close> ends it. A middleware that lists
  no \<open>Next\<close>, \<open>End\<close> or \<open>Throw\<close> never signals. \<open>AsMiddleware stack\<close> is the function
  that \<^verbatim>\<open>asMiddleware()\<close> returns for an engine with that stack.
\<close>

datatype action =
    ResWrite string jsval
  | ResDelete string
  | ReqWrite string jsval
  | ReqDelete string
  | Next rhandler
  | End jsval
  | Throw jsval
  | Mutate nat jsval

datatype middleware =
    Middleware "obj \<Rightarrow> obj \<Rightarrow> action list"
  | AsMiddleware "middleware list"

section \<open>State of one dispatch\<close>

text \<open>
  \<open>caller\<close> is the object the caller passed, \<open>req\<close> the working copy \<^verbatim>\<open>{ ...callerReq }\<close>
  (a new object), \<open>res\<close> the response. The engine keeps the caller's object to itself:
  middleware and return handlers are handed \<open>req\<close> and \<open>res\<close> only. \<open>log\<close> records, in
  order, every call the engine makes of a middleware or of a return handler, with the
  nesting depth of the engine that made it (0 for the engine that was asked to handle the
  request). \<open>written\<close> holds the shared arrays and objects that have been changed in place
  since the dispatch began, each with what it reads now; an object that is not in it is as
  the caller left it.
\<close>

datatype event = Invoked nat middleware | Ran nat rhandler

record state =
  caller :: jsval
  req :: obj
  res :: obj
  log :: "event list"
  written :: "nat \<rightharpoonup> jsval"

text \<open>No shared object has been changed in place.\<close>

definition untouched :: "nat \<rightharpoonup> jsval" where
  "untouched = Map.empty"

section \<open>Return-handler runner\<close>

text \<open>The callback \<^verbatim>\<open>(err) => (err ? reject(err) : resolve())\<close>.\<close>

definition handlerCallback :: "jsval \<Rightarrow> unit promise \<Rightarrow> unit promise" where
  "handlerCallback err p = settle (if truthy err then Rejected err else Resolved ()) p"

fun run_hactions :: "haction list \<Rightarrow> state \<times> unit promise \<Rightarrow> state \<times> unit promise" where
  "run_hactions [] sp = sp"
| "run_hactions (HResWrite k v # as) (s, p) = run_hactions as (s\<lparr>res := put k v (res s)\<rparr>, p)"
| "run_hactions (HResDelete k # as) (s, p) = run_hactions as (s\<lparr>res := del k (res s)\<rparr>, p)"
| "run_hactions (HReqWrite k v # as) (s, p) = run_hactions as (s\<lparr>req := put k v (req s)\<rparr>, p)"
| "run_hactions (HReqDelete k # as) (s, p) = run_hactions as (s\<lparr>req := del k (req s)\<rparr>, p)"
| "run_hactions (HCallback e # as) (s, p) = run_hactions as (s, handlerCallback e p)"
| "run_hactions (HThrow e # as) (s, p) = (s, settle (Rejected e) p)"
| "run_hactions (HMutate a v # as) (s, p) = run_hactions as (s\<lparr>written := (written s)(a \<mapsto> v)\<rparr>, p)"

text \<open>
  \<^verbatim>\<open>_runReturnHandlers\<close>: each handler is awaited before the next one is called; a
  rejection leaves the loop. \<open>runHandler\<close> is one iteration's
  \<^verbatim>\<open>new Promise((resolve, reject) => handler(...))\<close>.
\<close>

fun runHandler :: "nat \<Rightarrow> rhandler \<Rightarrow> state \<Rightarrow> state \<times> unit promise"
  and runReturnHandlers :: "nat \<Rightarrow> rhandler list \<Rightarrow> state \<Rightarrow> state \<times> unit promise" where
  "runHandler d (NotFn v) s = (s, Rejected notAFunction)"
| "runHandler d (Fn f) s =
     run_hactions (f (req s) (res s)) (s\<lparr>log := log s @ [Ran d (Fn f)]\<rparr>, Pending)"
| "runHandler d (Forward hs) s =
     (case runReturnHandlers (Suc d) hs (s\<lparr>log := log s @ [Ran d (Forward hs)]\<rparr>) of
        (s', Pending) \<Rightarrow> (s', Pending)
      | (s', Rejected e) \<Rightarrow> (s', handlerCallback e Pending)
      | (s', Resolved u) \<Rightarrow> (s', handlerCallback Undefined Pending))"
| "runReturnHandlers d [] s = (s, Resolved ())"
| "runReturnHandlers d (h # hs) s =
     (case runHandler d h s of
        (s', Resolved u) \<Rightarrow> runReturnHandlers d hs s'
      | (s', Rejected e) \<Rightarrow> (s', Rejected e)
      | (s', Pending) \<Rightarrow> (s', Pending))"

section \<open>Running the middleware stack\<close>

text \<open>
  One turn of \<^verbatim>\<open>_runMiddleware\<close> works on the dispatch state, on the \<^verbatim>\<open>returnHandlers\<close>
  array of the enclosing \<^verbatim>\<open>_runAllMiddleware\<close>, and on its own promise, which
  \<^verbatim>\<open>end\<close> and \<^verbatim>\<open>next\<close> resolve with \<^verbatim>\<open>[error, isComplete]\<close>. \<open>end_cb\<close> and
  \<open>next_cb\<close> are the closures \<^verbatim>\<open>end\<close> and \<^verbatim>\<open>next\<close> of \<^verbatim>\<open>_runMiddleware\<close>: in
  \<^verbatim>\<open>next\<close>, a value that is not a function ends the turn with an error and is pushed
  all the same, and the \<^verbatim>\<open>resolve([null, false])\<close> that follows finds the promise settled.
  \<open>run_actions\<close> is the call \<^verbatim>\<open>middleware(req, res, next, end)\<close> inside \<^verbatim>\<open>try\<close>:
  a throw is caught and handed to \<^verbatim>\<open>end\<close>.
\<close>

type_synonym turn = "state \<times> rhandler list \<times> (jsval \<times> bool) promise"

fun end_cb :: "ext \<Rightarrow> jsval \<Rightarrow> turn \<Rightarrow> turn" where
  "end_cb x err (s, hs, p) =
     (let error = (if truthy err then err else get ''error'' (res s)) in
      ((if truthy error then s\<lparr>res := put ''error'' (Obj (serializeError x error)) (res s)\<rparr> else s),
       hs,
       settle (Resolved (error, True)) p))"

fun next_cb :: "ext \<Rightarrow> rhandler \<Rightarrow> turn \<Rightarrow> turn" where
  "next_cb x returnHandler (s, hs, p) =
     (if truthy (get ''error'' (res s)) then end_cb x (get ''error'' (res s)) (s, hs, p)
      else if rh_truthy returnHandler then
        (case (if \<not> is_function returnHandler
               then end_cb x (Obj (newSerializableError x
                      ''JsonRpcEngine: 'next' return handlers must be functions'')) (s, hs, p)
               else (s, hs, p)) of
           (s1, hs1, p1) \<Rightarrow> (s1, hs1 @ [returnHandler], settle (Resolved (Null, False)) p1))
      else (s, hs, settle (Resolved (Null, False)) p))"

fun run_actions :: "ext \<Rightarrow> action list \<Rightarrow> turn \<Rightarrow> turn" where
  "run_actions x [] t = t"
| "run_actions x (ResWrite k v # as) (s, hs, p) = run_actions x as (s\<lparr>res := put k v (res s)\<rparr>, hs, p)"
| "run_actions x (ResDelete k # as) (s, hs, p) = run_actions x as (s\<lparr>res := del k (res s)\<rparr>, hs, p)"
| "run_actions x (ReqWrite k v # as) (s, hs, p) = run_actions x as (s\<lparr>req := put k v (req s)\<rparr>, hs, p)"
| "run_actions x (ReqDelete k # as) (s, hs, p) = run_actions x as (s\<lparr>req := del k (req s)\<rparr>, hs, p)"
| "run_actions x (Next h # as) t = run_actions x as (next_cb x h t)"
| "run_actions x (End e # as) t = run_actions x as (end_cb x e t)"
| "run_actions x (Throw e # as) t = end_cb x e t"
| "run_actions x (Mutate a v # as) (s, hs, p) =
     run_actions x as (s\<lparr>written := (written s)(a \<mapsto> v)\<rparr>, hs, p)"

text \<open>
  \<^verbatim>\<open>_runMiddleware\<close> and the loop of \<^verbatim>\<open>_runAllMiddleware\<close>. \<open>run_stack\<close> is the
  \<^verbatim>\<open>for\<close> loop: its last argument is the current \<^verbatim>\<open>[error, isComplete]\<close>; it stops at
  the first turn that completes, and stays pending behind a turn that never resolves.
  For \<open>AsMiddleware\<close> the turn is the body of the async function of \<^verbatim>\<open>asMiddleware\<close>:
  the inner stack runs on the same request and response.
\<close>

fun runMiddleware :: "ext \<Rightarrow> nat \<Rightarrow> middleware \<Rightarrow> state \<Rightarrow> rhandler list \<Rightarrow> turn"
  and run_stack :: "ext \<Rightarrow> nat \<Rightarrow> middleware list \<Rightarrow> state \<Rightarrow> rhandler list \<Rightarrow> jsval \<times> bool \<Rightarrow> turn" where
  "runMiddleware x d (Middleware f) s hs =
     run_actions x (f (req s) (res s)) (s\<lparr>log := log s @ [Invoked d (Middleware f)]\<rparr>, hs, Pending)"
| "runMiddleware x d (AsMiddleware stack) s hs =
     (case run_stack x (Suc d) stack (s\<lparr>log := log s @ [Invoked d (AsMiddleware stack)]\<rparr>) [] (Null, False) of
        (s1, ihs, Resolved (middlewareError, isComplete)) \<Rightarrow>
          (if isComplete then
             (case runReturnHandlers (Suc d) (rev ihs) s1 of
                (s2, Resolved u) \<Rightarrow> end_cb x middlewareError (s2, hs, Pending)
              | (s2, Rejected e) \<Rightarrow> end_cb x e (s2, hs, Pending)
              | (s2, Pending) \<Rightarrow> (s2, hs, Pending))
           else next_cb x (Forward (rev ihs)) (s1, hs, Pending))
      | (s1, ihs, Rejected e) \<Rightarrow> end_cb x e (s1, hs, Pending)
      | (s1, ihs, Pending) \<Rightarrow> (s1, hs, Pending))"
| "run_stack x d [] s hs r = (s, hs, Resolved r)"
| "run_stack x d (m # ms) s hs r =
     (case runMiddleware x d m s hs of
        (s', hs', Resolved (error, isComplete)) \<Rightarrow>
          (if isComplete then (s', hs', Resolved (error, isComplete))
           else run_stack x d ms s' hs' (error, isComplete))
      | (s', hs', other) \<Rightarrow> (s', hs', other))"

definition runAllMiddleware ::
  "ext \<Rightarrow> nat \<Rightarrow> middleware list \<Rightarrow> state \<Rightarrow> state \<times> (jsval \<times> bool \<times> rhandler list) promise" where
  "runAllMiddleware x d stack s =
     (case run_stack x d stack s [] (Null, False) of
        (s', hs, Resolved (error, isComplete)) \<Rightarrow> (s', Resolved (error, isComplete, rev hs))
      | (s', hs, Rejected e) \<Rightarrow> (s', Rejected e)
      | (s', hs, Pending) \<Rightarrow> (s', Pending))"

section \<open>Processing one request\<close>

text \<open>\<^verbatim>\<open>_checkForCompletion\<close>: the value it throws, if it throws.\<close>

definition checkForCompletion :: "ext \<Rightarrow> obj \<Rightarrow> obj \<Rightarrow> bool \<Rightarrow> jsval option" where
  "checkForCompletion x rq rs isComplete =
     (if \<not> has ''result'' rs \<and> \<not> has ''error'' rs
      then Some (Obj (newSerializableError x ''Response has no error or result for request''))
      else if \<not> isComplete
      then Some (Obj (newSerializableError x ''Nothing ended request''))
      else None)"

text \<open>\<^verbatim>\<open>_processRequest\<close>: the promise it returns, and the state it leaves.\<close>

definition processRequest :: "ext \<Rightarrow> middleware list \<Rightarrow> state \<Rightarrow> state \<times> unit promise" where
  "processRequest x stack s =
     (case runAllMiddleware x 0 stack s of
        (s1, Resolved (error, isComplete, returnHandlers)) \<Rightarrow>
          (case checkForCompletion x (req s1) (res s1) isComplete of
             Some e \<Rightarrow> (s1, Rejected e)
           | None \<Rightarrow>
               (case runReturnHandlers 0 returnHandlers s1 of
                  (s2, Resolved u) \<Rightarrow>
                    (if truthy error then (s2, Rejected error) else (s2, Resolved ()))
                | (s2, Rejected e) \<Rightarrow> (s2, Rejected e)
                | (s2, Pending) \<Rightarrow> (s2, Pending)))
      | (s1, Rejected e) \<Rightarrow> (s1, Rejected e)
      | (s1, Pending) \<Rightarrow> (s1, Pending))"

text \<open>
  What one call of \<^verbatim>\<open>_handle\<close> leaves behind: the caller's object, the calls it made, and
  the arguments \<^verbatim>\<open>(error, response)\<close> of the callback if the callback was called.
\<close>

record dispatch =
  caller_after :: jsval
  events :: "event list"
  callback :: "(jsval \<times> obj) option"

text \<open>
  The state \<^verbatim>\<open>_handle\<close> sets up for a request that passed validation: the working copy
  \<^verbatim>\<open>{ ...callerReq }\<close> and the response \<^verbatim>\<open>{ id: req.id, jsonrpc: req.jsonrpc }\<close>.
  The spread makes a new object with the caller's own properties and their values. The
  copy is shallow: where a property of the caller's object is a reference, the working
  copy holds the same reference, and the array or object it leads to is shared between
  the two.
\<close>

definition initial :: "jsval \<Rightarrow> state" where
  "initial callerReq =
     \<lparr>caller = callerReq,
      req = own_props callerReq,
      res = [(''id'', get ''id'' (own_props callerReq)), (''jsonrpc'', get ''jsonrpc'' (own_props callerReq))],
      log = [],
      written = untouched\<rparr>"

text \<open>\<^verbatim>\<open>_handle\<close>. A successful dispatch calls back with \<^verbatim>\<open>null\<close> as the error.\<close>

definition handle_internal :: "ext \<Rightarrow> middleware list \<Rightarrow> jsval \<Rightarrow> dispatch" where
  "handle_internal x stack callerReq =
     (if \<not> truthy callerReq \<or> isArray callerReq \<or> typeof callerReq \<noteq> ''object'' then
        (let error = Obj (newSerializableError x ''request must be plain object'') in
         \<lparr>caller_after = callerReq, events = [],
          callback = Some (error, [(''id'', Undefined), (''jsonrpc'', Str ''2.0''), (''error'', error)])\<rparr>)
      else if typeof (get ''method'' (own_props callerReq)) \<noteq> ''string'' then
        (let error = Obj (newSerializableError x ''method must be string'') in
         \<lparr>caller_after = callerReq, events = [],
          callback = Some (error, [(''id'', get ''id'' (own_props callerReq)), (''jsonrpc'', Str ''2.0''),
                                   (''error'', error)])\<rparr>)
      else
        (case processRequest x stack (initial callerReq) of
           (s, Pending) \<Rightarrow> \<lparr>caller_after = caller s, events = log s, callback = None\<rparr>
         | (s, Resolved u) \<Rightarrow>
             \<lparr>caller_after = caller s, events = log s, callback = Some (Null, res s)\<rparr>
         | (s, Rejected error) \<Rightarrow>
             \<lparr>caller_after = caller s, events = log s,
              callback = Some (error,
                (if truthy error then
                   (let rs1 = del ''result'' (res s) in
                    if \<not> truthy (get ''error'' rs1)
                    then put ''error'' (Obj (serializeError x error)) rs1 else rs1)
                 else res s))\<rparr>))"

text \<open>\<^verbatim>\<open>_promiseHandle\<close>: resolved with the response when the callback is called.\<close>

definition promiseHandle :: "ext \<Rightarrow> middleware list \<Rightarrow> jsval \<Rightarrow> obj promise" where
  "promiseHandle x stack rq =
     (case callback (handle_internal x stack rq) of
        Some (err, response) \<Rightarrow> Resolved response
      | None \<Rightarrow> Pending)"

text \<open>
  \<^verbatim>\<open>_handleBatch\<close> without a callback. Every item is a dispatch with a state of its own;
  the model runs them one after the other, which gives the same responses as long as
  middleware share nothing between calls (what a call does depends on the request and
  response it is handed, not on what shared objects hold).
\<close>

definition handleBatch :: "ext \<Rightarrow> middleware list \<Rightarrow> jsval list \<Rightarrow> obj list promise" where
  "handleBatch x stack reqs =
     (case promise_all (map (promiseHandle x stack) reqs) of
        Resolved responses \<Rightarrow> Resolved responses
      | Rejected error \<Rightarrow> Rejected error
      | Pending \<Rightarrow> Pending)"

text \<open>\<^verbatim>\<open>handle\<close> without a callback: a batch for an array, one dispatch otherwise.\<close>

datatype reply = Single "obj promise" | Batch "obj list promise"

definition handle :: "ext \<Rightarrow> middleware list \<Rightarrow> jsval \<Rightarrow> reply" where
  "handle x stack rq =
     (case rq of
        Arr reqs \<Rightarrow> Batch (handleBatch x stack reqs)
      | other \<Rightarrow> Single (promiseHandle x stack rq))"

section \<open>Notions used by the properties\<close>

text \<open>
  A well-formed request: a plain object whose \<^verbatim>\<open>method\<close> is a string. (A bare reference
  passes the engine's first test, \<^verbatim>\<open>typeof\<close> being \<^verbatim>\<open>"object"\<close>, but shows no
  \<^verbatim>\<open>method\<close>: requests are given by value.)
\<close>

fun is_plain_object :: "jsval \<Rightarrow> bool" where
  "is_plain_object (Obj ps) = True"
| "is_plain_object (Ref a) = True"
| "is_plain_object v = False"

definition wellformed :: "jsval \<Rightarrow> bool" where
  "wellformed r = (is_plain_object r \<and> typeof (get ''method'' (own_props r)) = ''string'')"

text \<open>The validation error \<^verbatim>\<open>_handle\<close> builds for a request that is not well-formed.\<close>

definition validation_error :: "ext \<Rightarrow> jsval \<Rightarrow> jsval" where
  "validation_error x r = Obj (newSerializableError x
     (if is_plain_object r then ''method must be string'' else ''request must be plain object''))"

text \<open>
  Signalling. A middleware turn signals when it calls \<^verbatim>\<open>next\<close> or \<^verbatim>\<open>end\<close> or throws;
  a return handler signals when it calls its callback or throws. A middleware is
  \<open>responsive\<close> when every turn it can take signals and every handler it can register
  is responsive.
\<close>

fun is_signal :: "action \<Rightarrow> bool" where
  "is_signal (Next h) = True"
| "is_signal (End e) = True"
| "is_signal (Throw e) = True"
| "is_signal a = False"

fun is_hsignal :: "haction \<Rightarrow> bool" where
  "is_hsignal (HCallback e) = True"
| "is_hsignal (HThrow e) = True"
| "is_hsignal a = False"

fun responsive_handler :: "rhandler \<Rightarrow> bool" where
  "responsive_handler (Fn g) = (\<forall>rq rs. \<exists>a \<in> set (g rq rs). is_hsignal a)"
| "responsive_handler (Forward hs) = (\<forall>h \<in> set hs. responsive_handler h)"
| "responsive_handler (NotFn v) = True"

fun responsive_action :: "action \<Rightarrow> bool" where
  "responsive_action (Next h) = responsive_handler h"
| "responsive_action a = True"

fun responsive :: "middleware \<Rightarrow> bool" where
  "responsive (Middleware f) =
     (\<forall>rq rs. (\<exists>a \<in> set (f rq rs). is_signal a) \<and> (\<forall>a \<in> set (f rq rs). responsive_action a))"
| "responsive (AsMiddleware stack) = (\<forall>m \<in> set stack. responsive m)"

text \<open>
  The error a turn ends with, when its signal, given in the state in which it is given, ends
  the turn with an error: \<^verbatim>\<open>end(err)\<close> or \<^verbatim>\<open>throw err\<close> with a truthy \<^verbatim>\<open>err\<close> (or
  with a truthy error already on the response), and \<^verbatim>\<open>next\<close> when the response's error
  is already set.
\<close>

fun error_signal :: "state \<Rightarrow> action \<Rightarrow> jsval option" where
  "error_signal s (End err) =
     (if truthy err then Some err
      else if truthy (get ''error'' (res s)) then Some (get ''error'' (res s)) else None)"
| "error_signal s (Throw err) =
     (if truthy err then Some err
      else if truthy (get ''error'' (res s)) then Some (get ''error'' (res s)) else None)"
| "error_signal s (Next h) =
     (if truthy (get ''error'' (res s)) then Some (get ''error'' (res s)) else None)"
| "error_signal s a = None"

text \<open>The handlers an engine at depth \<open>d\<close> called, in the order of the calls.\<close>

fun event_depth :: "event \<Rightarrow> nat" where
  "event_depth (Invoked d m) = d"
| "event_depth (Ran d h) = d"

fun handler_calls :: "nat \<Rightarrow> event list \<Rightarrow> rhandler list" where
  "handler_calls d [] = []"
| "handler_calls d (Ran d' h # evs) = (if d' = d then h # handler_calls d evs else handler_calls d evs)"
| "handler_calls d (Invoked d' m # evs) = handler_calls d evs"

text \<open>The middleware a dispatch called, in the order of the calls, at any depth.\<close>

fun middleware_calls :: "event list \<Rightarrow> middleware list" where
  "middleware_calls [] = []"
| "middleware_calls (Invoked d m # evs) = m # middleware_calls evs"
| "middleware_calls (Ran d h # evs) = middleware_calls evs"

text \<open>The error \<^verbatim>\<open>next\<close> ends the request with when it is handed a value that is not a
  function.\<close>

definition handlers_must_be_functions :: "ext \<Rightarrow> jsval" where
  "handlers_must_be_functions x =
     Obj (newSerializableError x ''JsonRpcEngine: 'next' return handlers must be functions'')"

text \<open>
  Middleware that keep to the completion protocol (\<open>tidy\<close>): a turn is a sequence of
  property writes followed by exactly one signal, its last action. The writes leave the
  response's \<^verbatim>\<open>id\<close> and \<^verbatim>\<open>jsonrpc\<close> alone and put only truthy values into \<^verbatim>\<open>error\<close>.
  A tidy return handler leaves \<^verbatim>\<open>id\<close>, \<^verbatim>\<open>jsonrpc\<close> and \<^verbatim>\<open>error\<close> unwritten, does not
  delete \<^verbatim>\<open>result\<close>, and ends with one call of its callback or by throwing a truthy value.
\<close>

fun tidy_write :: "action \<Rightarrow> bool" where
  "tidy_write (ResWrite k v) = (k \<noteq> ''id'' \<and> k \<noteq> ''jsonrpc'' \<and> (k = ''error'' \<longrightarrow> truthy v))"
| "tidy_write (ResDelete k) = (k \<noteq> ''id'' \<and> k \<noteq> ''jsonrpc'')"
| "tidy_write (ReqWrite k v) = True"
| "tidy_write (ReqDelete k) = True"
| "tidy_write a = False"

fun tidy_hwrite :: "haction \<Rightarrow> bool" where
  "tidy_hwrite (HResWrite k v) = (k \<noteq> ''id'' \<and> k \<noteq> ''jsonrpc'' \<and> k \<noteq> ''error'')"
| "tidy_hwrite (HResDelete k) = (k \<noteq> ''id'' \<and> k \<noteq> ''jsonrpc'' \<and> k \<noteq> ''result'')"
| "tidy_hwrite (HReqWrite k v) = True"
| "tidy_hwrite (HReqDelete k) = True"
| "tidy_hwrite a = False"

fun tidy_hsignal :: "haction \<Rightarrow> bool" where
  "tidy_hsignal (HCallback e) = True"
| "tidy_hsignal (HThrow e) = truthy e"
| "tidy_hsignal a = False"

fun tidy_handler :: "rhandler \<Rightarrow> bool" where
  "tidy_handler (Fn g) =
     (\<forall>rq rs. g rq rs \<noteq> [] \<and> (\<forall>a \<in> set (butlast (g rq rs)). tidy_hwrite a)
        \<and> tidy_hsignal (last (g rq rs)))"
| "tidy_handler (Forward hs) = (\<forall>h \<in> set hs. tidy_handler h)"
| "tidy_handler (NotFn v) = True"

fun tidy_signal :: "action \<Rightarrow> bool" where
  "tidy_signal (Next h) = tidy_handler h"
| "tidy_signal (End e) = True"
| "tidy_signal (Throw e) = True"
| "tidy_signal a = False"

fun tidy :: "middleware \<Rightarrow> bool" where
  "tidy (Middleware f) =
     (\<forall>rq rs. f rq rs \<noteq> [] \<and> (\<forall>a \<in> set (butlast (f rq rs)). tidy_write a)
        \<and> tidy_signal (last (f rq rs)))"
| "tidy (AsMiddleware stack) = (\<forall>m \<in> set stack. tidy m)"

definition error_ok :: "obj \<Rightarrow> bool" where
  "error_ok rs = (has ''error'' rs \<longrightarrow> truthy (get ''error'' rs))"

text \<open>What a tidy return handler can do to the response.\<close>

definition hstep :: "obj \<Rightarrow> obj \<Rightarrow> bool" where
  "hstep rs rs' =
     (get ''id'' rs' = get ''id'' rs \<and> get ''jsonrpc'' rs' = get ''jsonrpc'' rs
      \<and> (has ''result'' rs \<longrightarrow> has ''result'' rs')
      \<and> (has ''error'' rs' \<longrightarrow> has ''error'' rs \<and> get ''error'' rs' = get ''error'' rs))"

text \<open>What a tidy middleware can do to the response.\<close>

definition mstep :: "obj \<Rightarrow> obj \<Rightarrow> bool" where
  "mstep rs rs' =
     (get ''id'' rs' = get ''id'' rs \<and> get ''jsonrpc'' rs' = get ''jsonrpc'' rs
      \<and> (error_ok rs \<longrightarrow> error_ok rs'))"

text \<open>Outcome of the return handlers of tidy middleware.\<close>

definition hgood :: "state \<Rightarrow> state \<times> unit promise \<Rightarrow> bool" where
  "hgood s sp = (snd sp \<noteq> Pending \<and> (\<forall>e. snd sp = Rejected e \<longrightarrow> truthy e)
      \<and> hstep (res s) (res (fst sp)))"

text \<open>Outcome of a turn of a tidy middleware.\<close>

definition mgood :: "state \<Rightarrow> turn \<Rightarrow> bool" where
  "mgood s t =
     ((\<exists>e c. snd (snd t) = Resolved (e, c) \<and> (c \<and> \<not> truthy e \<longrightarrow> \<not> has ''error'' (res (fst t))))
      \<and> mstep (res s) (res (fst t)) \<and> error_ok (res (fst t))
      \<and> (\<forall>h \<in> set (fst (snd t)). tidy_handler h))"

text \<open>
  The protocol violations \<^verbatim>\<open>_checkForCompletion\<close> throws, and the one it throws for a
  response \<open>rs\<close> when nothing ended the request.
\<close>

definition no_result_or_error :: "ext \<Rightarrow> jsval" where
  "no_result_or_error x = Obj (newSerializableError x ''Response has no error or result for request'')"

definition nothing_ended :: "ext \<Rightarrow> jsval" where
  "nothing_ended x = Obj (newSerializableError x ''Nothing ended request'')"

definition violation :: "ext \<Rightarrow> obj \<Rightarrow> jsval" where
  "violation x rs =
     (if \<not> has ''result'' rs \<and> \<not> has ''error'' rs then no_result_or_error x else nothing_ended x)"

text \<open>
  Middleware that only pass the request on (\<open>only_passes\<close>): a turn is a sequence of
  property writes and changes in place that do not write the response's \<^verbatim>\<open>error\<close>,
  followed, as its last action, by a call of \<^verbatim>\<open>next\<close> with a function or with nothing
  (a falsy value). An engine used as middleware only passes on when its middleware do.
\<close>

fun spares_error :: "action \<Rightarrow> bool" where
  "spares_error (ResWrite k v) = (k \<noteq> ''error'')"
| "spares_error (ResDelete k) = True"
| "spares_error (ReqWrite k v) = True"
| "spares_error (ReqDelete k) = True"
| "spares_error (Mutate a v) = True"
| "spares_error a = False"

fun forwards :: "action \<Rightarrow> bool" where
  "forwards (Next h) = (is_function h \<or> \<not> rh_truthy h)"
| "forwards a = False"

fun only_passes :: "middleware \<Rightarrow> bool" where
  "only_passes (Middleware f) =
     (\<forall>rq rs. f rq rs \<noteq> [] \<and> (\<forall>a \<in> set (butlast (f rq rs)). spares_error a)
        \<and> forwards (last (f rq rs)))"
| "only_passes (AsMiddleware stack) = (\<forall>m \<in> set stack. only_passes m)"

text \<open>
  References. \<open>refs v\<close> are the references that occur in a value, at any depth, and
  \<open>orefs ob\<close> those that occur in the properties of an object.
\<close>

fun refs :: "jsval \<Rightarrow> nat set" where
  "refs (Ref a) = {a}"
| "refs (Arr vs) = (\<Union>v \<in> set vs. refs v)"
| "refs (Obj ps) = (\<Union>p \<in> set ps. refs (snd p))"
| "refs v = {}"

definition orefs :: "obj \<Rightarrow> nat set" where
  "orefs ob = (\<Union>p \<in> set ob. refs (snd p))"

text \<open>
  A middleware or return handler is \<open>honest\<close> when it makes up no reference: the objects it
  changes in place, and the references in the values it writes, throws or hands to
  \<^verbatim>\<open>end\<close> or to its callback, are references that occur in the request or response it is
  called with; the handlers it registers are honest too. The collaborators are honest
  when \<^verbatim>\<open>serializeError\<close> returns no reference that is not in its argument and a
  \<^verbatim>\<open>SerializableError\<close> built from a message holds none.
\<close>

fun haction_refs :: "haction \<Rightarrow> nat set" where
  "haction_refs (HResWrite k v) = refs v"
| "haction_refs (HReqWrite k v) = refs v"
| "haction_refs (HCallback e) = refs e"
| "haction_refs (HThrow e) = refs e"
| "haction_refs (HMutate a v) = insert a (refs v)"
| "haction_refs a = {}"

fun honest_handler :: "rhandler \<Rightarrow> bool" where
  "honest_handler (Fn g) =
     (\<forall>rq rs. \<forall>a \<in> set (g rq rs). haction_refs a \<subseteq> orefs rq \<union> orefs rs)"
| "honest_handler (Forward hs) = (\<forall>h \<in> set hs. honest_handler h)"
| "honest_handler (NotFn v) = True"

fun action_refs :: "action \<Rightarrow> nat set" where
  "action_refs (ResWrite k v) = refs v"
| "action_refs (ReqWrite k v) = refs v"
| "action_refs (End e) = refs e"
| "action_refs (Throw e) = refs e"
| "action_refs (Mutate a v) = insert a (refs v)"
| "action_refs a = {}"

fun honest_action :: "action \<Rightarrow> bool" where
  "honest_action (Next h) = honest_handler h"
| "honest_action a = True"

fun honest :: "middleware \<Rightarrow> bool" where
  "honest (Middleware f) =
     (\<forall>rq rs. \<forall>a \<in> set (f rq rs). action_refs a \<subseteq> orefs rq \<union> orefs rs \<and> honest_action a)"
| "honest (AsMiddleware stack) = (\<forall>m \<in> set stack. honest m)"

definition ext_honest :: "ext \<Rightarrow> bool" where
  "ext_honest x = ((\<forall>v. orefs (serializeError x v) \<subseteq> refs v)
     \<and> (\<forall>m. orefs (newSerializableError x m) = {}))"

text \<open>
  A state, the outcome of the return handlers and the outcome of a turn that stay within
  a set \<open>A\<close> of references: the request and the response hold only references of \<open>A\<close>,
  only objects of \<open>A\<close> have been changed in place, the errors passed on hold only
  references of \<open>A\<close>, and the registered handlers are honest.
\<close>

definition within :: "nat set \<Rightarrow> state \<Rightarrow> bool" where
  "within A s = (orefs (req s) \<subseteq> A \<and> orefs (res s) \<subseteq> A \<and> dom (written s) \<subseteq> A)"

definition hwithin :: "nat set \<Rightarrow> state \<times> unit promise \<Rightarrow> bool" where
  "hwithin A sp = (within A (fst sp) \<and> (\<forall>e. snd sp = Rejected e \<longrightarrow> refs e \<subseteq> A))"

definition twithin :: "nat set \<Rightarrow> turn \<Rightarrow> bool" where
  "twithin A t = (within A (fst t) \<and> (\<forall>h \<in> set (fst (snd t)). honest_handler h)
     \<and> (\<forall>e c. snd (snd t) = Resolved (e, c) \<longrightarrow> refs e \<subseteq> A)
     \<and> (\<forall>e. snd (snd t) = Rejected e \<longrightarrow> refs e \<subseteq> A))"


text \<open>Concrete collaborators, requests and middleware for the examples.\<close>

definition sample_ext :: ext where
  "sample_ext = \<lparr>serializeError = (\<lambda>e. [(''code'', Num (- 32603)), (''data'', e)]),
                 newSerializableError = (\<lambda>m. [(''message'', Str m)])\<rparr>"

definition sample_request :: jsval where
  "sample_request = Obj [(''id'', Num 7), (''jsonrpc'', Str ''2.0''), (''method'', Str ''ping'')]"

text \<open>\<^verbatim>\<open>(req, res, next, end) => { res.result = v; end(); }\<close>\<close>

definition fixed_result :: "jsval \<Rightarrow> middleware" where
  "fixed_result v = Middleware (\<lambda>rq rs. [ResWrite ''result'' v, End Undefined])"

text \<open>\<^verbatim>\<open>(req, res, next, end) => {}\<close>: returns without calling \<^verbatim>\<open>next\<close> or \<^verbatim>\<open>end\<close>.\<close>

definition silent :: middleware where
  "silent = Middleware (\<lambda>rq rs. [])"

text \<open>\<^verbatim>\<open>(req, res, next, end) => { throw e; }\<close>\<close>

definition throwing :: "jsval \<Rightarrow> middleware" where
  "throwing e = Middleware (\<lambda>rq rs. [Throw e])"

text \<open>A middleware that throws for the request with identifier 1 and answers the
  identifier of any other request.\<close>

definition picky :: middleware where
  "picky = Middleware (\<lambda>rq rs.
     if get ''id'' rq = Num 1 then [Throw (Str ''boom'')]
     else [ResWrite ''result'' (get ''id'' rq), End Undefined])"

definition request_with_id :: "int \<Rightarrow> jsval" where
  "request_with_id n = Obj [(''id'', Num n), (''method'', Str ''ping'')]"

text \<open>\<^verbatim>\<open>(req, res, next, end) => { next(); }\<close>\<close>

definition passing :: middleware where
  "passing = Middleware (\<lambda>rq rs. [Next (NotFn Undefined)])"

text \<open>\<^verbatim>\<open>(req, res, next, end) => { res.result = 1; end("boom"); }\<close>\<close>

definition failing :: middleware where
  "failing = Middleware (\<lambda>rq rs. [ResWrite ''result'' (Num 1), End (Str ''boom'')])"

text \<open>The return handler \<^verbatim>\<open>(done) => { res[k] = true; done(); }\<close>.\<close>

definition marking :: "string \<Rightarrow> rhandler" where
  "marking k = Fn (\<lambda>rq rs. [HResWrite k (Bool True), HCallback Undefined])"

text \<open>\<^verbatim>\<open>(req, res, next, end) => { next(h); }\<close>\<close>

definition registering :: "rhandler \<Rightarrow> middleware" where
  "registering h = Middleware (\<lambda>rq rs. [Next h])"

text \<open>\<^verbatim>\<open>(req, res, next, end) => { res.result = 1; next(5); end(); }\<close>\<close>

definition sloppy :: middleware where
  "sloppy = Middleware (\<lambda>rq rs. [ResWrite ''result'' (Num 1), Next (NotFn (Num 5)), End Undefined])"

text \<open>\<^verbatim>\<open>(req, res, next, end) => { end(); }\<close>\<close>

definition ending :: middleware where
  "ending = Middleware (\<lambda>rq rs. [End Undefined])"

text \<open>\<^verbatim>\<open>(req, res, next, end) => { res.result = 1; next(0); }\<close>\<close>

definition passing_zero :: middleware where
  "passing_zero = Middleware (\<lambda>rq rs. [ResWrite ''result'' (Num 1), Next (NotFn (Num 0))])"

text \<open>\<^verbatim>\<open>(req, res, next, end) => { res.result = 1; next(5); delete res.error;
  next((done) => { throw 0; }); }\<close>\<close>

definition persistent :: middleware where
  "persistent = Middleware (\<lambda>rq rs.
     [ResWrite ''result'' (Num 1), Next (NotFn (Num 5)), ResDelete ''error'',
      Next (Fn (\<lambda>rq rs. [HThrow (Num 0)]))])"

text \<open>\<^verbatim>\<open>(req, res, next, end) => { res.result = 1; res.error = null; end(); }\<close>\<close>

definition nulling :: middleware where
  "nulling = Middleware (\<lambda>rq rs. [ResWrite ''result'' (Num 1), ResWrite ''error'' Null, End Undefined])"

text \<open>\<^verbatim>\<open>(req, res, next, end) => { res.error = null; end(); }\<close>\<close>

definition null_error :: middleware where
  "null_error = Middleware (\<lambda>rq rs. [ResWrite ''error'' Null, End Undefined])"

text \<open>\<^verbatim>\<open>(req, res, next, end) => { res.id = 99; res.result = 1; end(); }\<close>\<close>

definition renumbering :: middleware where
  "renumbering = Middleware (\<lambda>rq rs. [ResWrite ''id'' (Num 99), ResWrite ''result'' (Num 1), End Undefined])"

text \<open>\<^verbatim>\<open>(req, res, next, end) => { res.result = req.method; req.method = "changed";
  delete req.id; end(); }\<close>\<close>

definition rewriting :: middleware where
  "rewriting = Middleware (\<lambda>rq rs.
     [ResWrite ''result'' (get ''method'' rq), ReqWrite ''method'' (Str ''changed''),
      ReqDelete ''id'', End Undefined])"

text \<open>\<^verbatim>\<open>(req, res, next, end) => { next(); throw "late"; }\<close>\<close>

definition late_thrower :: middleware where
  "late_thrower = Middleware (\<lambda>rq rs. [Next (NotFn Undefined), Throw (Str ''late'')])"

text \<open>\<^verbatim>\<open>(req, res, next, end) => { res.result = 1; throw 0; }\<close>\<close>

definition zero_thrower :: middleware where
  "zero_thrower = Middleware (\<lambda>rq rs. [ResWrite ''result'' (Num 1), Throw (Num 0)])"

text \<open>The return handler \<^verbatim>\<open>(done) => { res.error = "other"; done(); }\<close>.\<close>

definition overwriting :: rhandler where
  "overwriting = Fn (\<lambda>rq rs. [HResWrite ''error'' (Str ''other''), HCallback Undefined])"

text \<open>\<^verbatim>\<open>(req, res, next, end) => { end("boom"); res.error = "other"; }\<close>\<close>

definition blurring :: middleware where
  "blurring = Middleware (\<lambda>rq rs. [End (Str ''boom''), ResWrite ''error'' (Str ''other'')])"

text \<open>The return handler \<^verbatim>\<open>(done) => { res.result = 1; done(); }\<close>.\<close>

definition filling :: rhandler where
  "filling = Fn (\<lambda>rq rs. [HResWrite ''result'' (Num 1), HCallback Undefined])"

text \<open>\<^verbatim>\<open>(req, res, next, end) => { end(); res.result = 1; }\<close>\<close>

definition late_result :: middleware where
  "late_result = Middleware (\<lambda>rq rs. [End Undefined, ResWrite ''result'' (Num 1)])"

text \<open>The return handler \<^verbatim>\<open>(done) => { delete res.error; throw 0; }\<close>.\<close>

definition wiping :: rhandler where
  "wiping = Fn (\<lambda>rq rs. [HResDelete ''error'', HThrow (Num 0)])"

text \<open>
  A request whose \<^verbatim>\<open>params\<close> is a reference to the object number 1, an array that holds
  \<^verbatim>\<open>[1]\<close> when the caller hands the request over.
\<close>

definition sharing_request :: jsval where
  "sharing_request = Obj [(''id'', Num 7), (''jsonrpc'', Str ''2.0''), (''method'', Str ''push''),
     (''params'', Ref 1)]"

definition caller_objects :: "nat \<Rightarrow> jsval" where
  "caller_objects = (\<lambda>a. Undefined)(1 := Arr [Num 1])"

text \<open>\<^verbatim>\<open>(req, res, next, end) => { req.params.push(2); req.method = "changed";
  res.result = 2; end(); }\<close> for a request whose \<^verbatim>\<open>params\<close> is a shared array holding
  \<^verbatim>\<open>[1]\<close>; for any other request it answers 0.\<close>

definition pushing :: middleware where
  "pushing = Middleware (\<lambda>rq rs.
     case get ''params'' rq of
       Ref a \<Rightarrow> [Mutate a (Arr [Num 1, Num 2]), ReqWrite ''method'' (Str ''changed''),
                 ResWrite ''result'' (Num 2), End Undefined]
     | other \<Rightarrow> [ResWrite ''result'' (Num 0), End Undefined])"

text \<open>The state of the dispatch of \<open>sample_request\<close> after a turn of \<open>passing\<close>.\<close>

definition after_passing :: state where
  "after_passing =
     \<lparr>caller = sample_request,
      req = [(''id'', Num 7), (''jsonrpc'', Str ''2.0''), (''method'', Str ''ping'')],
      res = [(''id'', Num 7), (''jsonrpc'', Str ''2.0'')],
      log = [Invoked 0 passing],
      written = untouched\<rparr>"

section \<open>Objects and validation\<close>

lemmas sample_defs = sample_ext_def sample_request_def passing_def failing_def marking_def
  registering_def sloppy_def after_passing_def fixed_result_def ending_def passing_zero_def
  persistent_def nulling_def null_error_def renumbering_def rewriting_def silent_def
  throwing_def picky_def request_with_id_def late_thrower_def zero_thrower_def
  overwriting_def blurring_def filling_def late_result_def wiping_def sharing_request_def
  caller_objects_def pushing_def
lemmas engine_defs = handle_internal_def processRequest_def runAllMiddleware_def
  checkForCompletion_def initial_def Let_def put_def del_def handlerCallback_def


lemma has_put [simp]: "has k (put k' v ob) = (k = k' \<or> has k ob)"
  by (auto simp: has_def put_def update_conv')

lemma has_del [simp]: "has k (del k' ob) = (k \<noteq> k' \<and> has k ob)"
  by (auto simp: has_def del_def delete_conv')

lemma get_put [simp]: "get k (put k' v ob) = (if k = k' then v else get k ob)"
  by (auto simp: get_def put_def update_conv')

lemma get_del [simp]: "get k (del k' ob) = (if k = k' then Undefined else get k ob)"
  by (auto simp: get_def del_def delete_conv')

lemma truthy_get_has: "truthy (get k ob) \<Longrightarrow> has k ob"
  by (auto simp: get_def has_def split: option.splits)

lemma has_Nil [simp]: "has k [] = False"
  by (simp add: has_def)

lemma has_Cons [simp]: "has k ((k', v) # ob) = (k = k' \<or> has k ob)"
  by (auto simp: has_def)

lemma get_Nil [simp]: "get k [] = Undefined"
  by (simp add: get_def)

lemma get_Cons [simp]: "get k ((k', v) # ob) = (if k = k' then v else get k ob)"
  by (auto simp: get_def)

lemma not_plain_object_iff:
  "(\<not> truthy r \<or> isArray r \<or> typeof r \<noteq> ''object'') = (\<not> is_plain_object r)"
  by (cases r) auto

lemma wellformed_checks:
  "wellformed r \<Longrightarrow> \<not> (\<not> truthy r \<or> isArray r \<or> typeof r \<noteq> ''object'')
     \<and> typeof (get ''method'' (own_props r)) = ''string''"
  using not_plain_object_iff [of r] by (simp add: wellformed_def)

section \<open>The caller's request object\<close>

lemma caller_run_hactions: "caller (fst (run_hactions as sp)) = caller (fst sp)"
  by (induction as sp rule: run_hactions.induct) auto

lemma caller_runHandler: "caller (fst (runHandler d h s)) = caller s"
  and caller_runReturnHandlers: "caller (fst (runReturnHandlers d hs s)) = caller s"
proof (induction d h s and d hs s rule: runHandler_runReturnHandlers.induct)
  case (1 d v s)
  then show ?case by simp
next
  case (2 d f s)
  then show ?case by (simp add: caller_run_hactions)
next
  case (3 d hs s)
  then show ?case by (auto split: prod.splits promise.splits)
next
  case (4 d s)
  then show ?case by simp
next
  case (5 d h hs s)
  then show ?case by (auto split: prod.splits promise.splits)
qed

lemma caller_runReturnHandlersD:
  "runReturnHandlers d hs s = (s', p) \<Longrightarrow> caller s' = caller s"
  using caller_runReturnHandlers [of d hs s] by simp

lemma caller_end_cb: "caller (fst (end_cb x e t)) = caller (fst t)"
  by (cases t) (simp add: Let_def)

lemma caller_next_cb: "caller (fst (next_cb x h t)) = caller (fst t)"
  by (cases t) (auto simp: Let_def split: prod.splits)

lemma caller_run_actions: "caller (fst (run_actions x as t)) = caller (fst t)"
  by (induction x as t rule: run_actions.induct)
     (auto simp: caller_end_cb caller_next_cb simp del: end_cb.simps next_cb.simps)

lemma caller_runMiddleware: "caller (fst (runMiddleware x d m s hs)) = caller s"
  and caller_run_stack: "caller (fst (run_stack x d ms s hs r)) = caller s"
proof (induction x d m s hs and x d ms s hs r rule: runMiddleware_run_stack.induct)
  case (1 x d f s hs)
  then show ?case by (simp add: caller_run_actions)
next
  case (2 x d stack s hs)
  obtain s1 ihs p where R:
    "run_stack x (Suc d) stack (s\<lparr>log := log s @ [Invoked d (AsMiddleware stack)]\<rparr>) [] (Null, False)
       = (s1, ihs, p)"
    by (metis prod_cases3)
  with 2 have c1: "caller s1 = caller s" by simp
  obtain s2 q where H: "runReturnHandlers (Suc d) (rev ihs) s1 = (s2, q)"
    by (metis surj_pair)
  have c2: "caller s2 = caller s1"
    using H by (rule caller_runReturnHandlersD)
  show ?case
    using R H c1 c2
    by (simp add: caller_end_cb caller_next_cb split: promise.splits prod.splits
             del: end_cb.simps next_cb.simps)
next
  case (3 x d s hs r)
  then show ?case by simp
next
  case (4 x d m ms s hs r)
  then show ?case by (auto split: prod.splits promise.splits)
qed

lemma caller_runAllMiddlewareD:
  "runAllMiddleware x d stack s = (s', p) \<Longrightarrow> caller s' = caller s"
  using caller_run_stack [of x d stack s "[]" "(Null, False)"]
  by (auto simp: runAllMiddleware_def split: prod.splits promise.splits)


section \<open>Shared objects\<close>

lemma refs_get: "refs (get k ob) \<subseteq> orefs ob"
  by (auto simp: get_def orefs_def split: option.splits dest!: map_of_SomeD)

lemma set_put: "set (put k v ob) \<subseteq> insert (k, v) (set ob)"
  unfolding put_def by (induction ob) auto

lemma set_del: "set (del k ob) \<subseteq> set ob"
  unfolding del_def by (induction ob) auto

lemma refs_put: "orefs (put k v ob) \<subseteq> refs v \<union> orefs ob"
  using set_put [of k v ob] unfolding orefs_def by fastforce

lemma refs_del: "orefs (del k ob) \<subseteq> orefs ob"
  using set_del [of k ob] unfolding orefs_def by fastforce

lemma within_res_put: "within A s \<Longrightarrow> refs v \<subseteq> A \<Longrightarrow> within A (s\<lparr>res := put k v (res s)\<rparr>)"
  using refs_put [of k v "res s"] unfolding within_def by (simp, blast)

lemma within_res_del: "within A s \<Longrightarrow> within A (s\<lparr>res := del k (res s)\<rparr>)"
  using refs_del [of k "res s"] unfolding within_def by (simp, blast)

lemma within_req_put: "within A s \<Longrightarrow> refs v \<subseteq> A \<Longrightarrow> within A (s\<lparr>req := put k v (req s)\<rparr>)"
  using refs_put [of k v "req s"] unfolding within_def by (simp, blast)

lemma within_req_del: "within A s \<Longrightarrow> within A (s\<lparr>req := del k (req s)\<rparr>)"
  using refs_del [of k "req s"] unfolding within_def by (simp, blast)

lemma within_written: "within A s \<Longrightarrow> a \<in> A \<Longrightarrow> within A (s\<lparr>written := (written s)(a \<mapsto> v)\<rparr>)"
  unfolding within_def by simp

lemma within_log [simp]: "within A (s\<lparr>log := l\<rparr>) = within A s"
  unfolding within_def by simp

lemma within_get_res: "within A s \<Longrightarrow> refs (get k (res s)) \<subseteq> A"
  using refs_get [of k "res s"] unfolding within_def by blast

lemma hwithinD: "hwithin A (s, p) \<Longrightarrow> within A s" "hwithin A (s, p) \<Longrightarrow> p = Rejected e \<Longrightarrow> refs e \<subseteq> A"
  unfolding hwithin_def by simp_all

lemma hwithin_state: "hwithin A (s, p) \<Longrightarrow> within A s' \<Longrightarrow> hwithin A (s', p)"
  unfolding hwithin_def by simp

lemma hwithin_settle:
  "hwithin A (s, p) \<Longrightarrow> (\<And>e. q = Rejected e \<Longrightarrow> refs e \<subseteq> A) \<Longrightarrow> hwithin A (s, settle q p)"
  unfolding hwithin_def by (cases p) simp_all

lemma within_run_hactions:
  "\<forall>a \<in> set as. haction_refs a \<subseteq> A \<Longrightarrow> hwithin A sp \<Longrightarrow> hwithin A (run_hactions as sp)"
proof (induction as sp rule: run_hactions.induct)
  case (1 sp)
  then show ?case by simp
next
  case (2 k v as s p)
  from "2.prems"(1) have v: "refs v \<subseteq> A" and rest: "\<forall>a \<in> set as. haction_refs a \<subseteq> A" by simp_all
  have "hwithin A (s\<lparr>res := put k v (res s)\<rparr>, p)"
    using hwithin_state [OF "2.prems"(2) within_res_put [OF hwithinD(1) [OF "2.prems"(2)] v]] .
  from "2.IH" [OF rest this] show ?case by simp
next
  case (3 k as s p)
  from "3.prems"(1) have rest: "\<forall>a \<in> set as. haction_refs a \<subseteq> A" by simp
  have "hwithin A (s\<lparr>res := del k (res s)\<rparr>, p)"
    using hwithin_state [OF "3.prems"(2) within_res_del [OF hwithinD(1) [OF "3.prems"(2)]]] .
  from "3.IH" [OF rest this] show ?case by simp
next
  case (4 k v as s p)
  from "4.prems"(1) have v: "refs v \<subseteq> A" and rest: "\<forall>a \<in> set as. haction_refs a \<subseteq> A" by simp_all
  have "hwithin A (s\<lparr>req := put k v (req s)\<rparr>, p)"
    using hwithin_state [OF "4.prems"(2) within_req_put [OF hwithinD(1) [OF "4.prems"(2)] v]] .
  from "4.IH" [OF rest this] show ?case by simp
next
  case (5 k as s p)
  from "5.prems"(1) have rest: "\<forall>a \<in> set as. haction_refs a \<subseteq> A" by simp
  have "hwithin A (s\<lparr>req := del k (req s)\<rparr>, p)"
    using hwithin_state [OF "5.prems"(2) within_req_del [OF hwithinD(1) [OF "5.prems"(2)]]] .
  from "5.IH" [OF rest this] show ?case by simp
next
  case (6 e as s p)
  from "6.prems"(1) have e: "refs e \<subseteq> A" and rest: "\<forall>a \<in> set as. haction_refs a \<subseteq> A" by simp_all
  have "hwithin A (s, handlerCallback e p)"
    unfolding handlerCallback_def
    using hwithin_settle [OF "6.prems"(2), of "Rejected e"]
      hwithin_settle [OF "6.prems"(2), of "Resolved ()"] e by simp
  from "6.IH" [OF rest this] show ?case by simp
next
  case (7 e as s p)
  from "7.prems"(1) have e: "refs e \<subseteq> A" by simp
  show ?case using hwithin_settle [OF "7.prems"(2), of "Rejected e"] e by simp
next
  case (8 a v as s p)
  from "8.prems"(1) have a: "a \<in> A" and rest: "\<forall>a \<in> set as. haction_refs a \<subseteq> A" by simp_all
  have "hwithin A (s\<lparr>written := (written s)(a \<mapsto> v)\<rparr>, p)"
    using hwithin_state [OF "8.prems"(2) within_written [OF hwithinD(1) [OF "8.prems"(2)] a]] .
  from "8.IH" [OF rest this] show ?case by simp
qed


lemma refs_notAFunction [simp]: "refs notAFunction = {}"
  by (simp add: notAFunction_def)

lemma within_runHandler:
  "honest_handler h \<Longrightarrow> within A s \<Longrightarrow> hwithin A (runHandler d h s)"
  and within_runReturnHandlers:
  "\<forall>h \<in> set hs. honest_handler h \<Longrightarrow> within A s \<Longrightarrow> hwithin A (runReturnHandlers d hs s)"
proof (induction d h s and d hs s rule: runHandler_runReturnHandlers.induct)
  case (1 d v s)
  then show ?case by (simp add: hwithin_def)
next
  case (2 d f s)
  have sub: "orefs (req s) \<union> orefs (res s) \<subseteq> A"
    using "2.prems"(2) by (simp add: within_def)
  have acts: "\<forall>a \<in> set (f (req s) (res s)). haction_refs a \<subseteq> A"
    using "2.prems"(1) sub by fastforce
  have "hwithin A (s\<lparr>log := log s @ [Ran d (Fn f)]\<rparr>, Pending)"
    using "2.prems"(2) by (simp add: hwithin_def)
  from within_run_hactions [OF acts this] show ?case by simp
next
  case (3 d hs s)
  let ?s0 = "s\<lparr>log := log s @ [Ran d (Forward hs)]\<rparr>"
  obtain s' p where R: "runReturnHandlers (Suc d) hs ?s0 = (s', p)" by (metis surj_pair)
  from "3.IH" "3.prems" R have g: "hwithin A (s', p)" by simp
  show ?case
    using R hwithinD [OF g]
    by (cases p) (simp_all add: hwithin_def handlerCallback_def)
next
  case (4 d s)
  then show ?case by (simp add: hwithin_def)
next
  case (5 d h hs s)
  obtain s' p where H: "runHandler d h s = (s', p)" by (metis surj_pair)
  from "5.IH"(1) "5.prems" H have g1: "hwithin A (s', p)" by simp
  show ?case
  proof (cases p)
    case (Resolved u)
    from "5.IH"(2) [OF H [symmetric] Resolved] "5.prems"(1) hwithinD(1) [OF g1]
    have "hwithin A (runReturnHandlers d hs s')" by simp
    with H Resolved show ?thesis by simp
  next
    case (Rejected e)
    with g1 H show ?thesis by simp
  next
    case Pending
    with g1 H show ?thesis by simp
  qed
qed

lemma twithinD:
  "twithin A (s, hs, p) \<Longrightarrow> within A s"
  "twithin A (s, hs, p) \<Longrightarrow> \<forall>h \<in> set hs. honest_handler h"
  "twithin A (s, hs, p) \<Longrightarrow> p = Resolved (e, c) \<Longrightarrow> refs e \<subseteq> A"
  "twithin A (s, hs, p) \<Longrightarrow> p = Rejected e \<Longrightarrow> refs e \<subseteq> A"
  unfolding twithin_def by simp_all

lemma twithin_state: "twithin A (s, hs, p) \<Longrightarrow> within A s' \<Longrightarrow> twithin A (s', hs, p)"
  unfolding twithin_def by simp

lemma twithin_settle:
  "twithin A (s, hs, p) \<Longrightarrow> refs e \<subseteq> A \<Longrightarrow> twithin A (s, hs, settle (Resolved (e, c)) p)"
  unfolding twithin_def by (cases p) simp_all

lemma twithin_push:
  "twithin A (s, hs, p) \<Longrightarrow> honest_handler h \<Longrightarrow> twithin A (s, hs @ [h], p)"
  unfolding twithin_def by simp

lemma within_end_cb:
  assumes x: "ext_honest x" and e: "refs e \<subseteq> A" and t: "twithin A (s, hs, p)"
  shows "twithin A (end_cb x e (s, hs, p))"
proof -
  let ?error = "if truthy e then e else get ''error'' (res s)"
  have er: "refs ?error \<subseteq> A"
    using e within_get_res [OF twithinD(1) [OF t], of "''error''"] by simp
  have ser: "refs (Obj (serializeError x ?error)) \<subseteq> A"
    using x er unfolding ext_honest_def orefs_def by fastforce
  have st: "within A (s\<lparr>res := put ''error'' (Obj (serializeError x ?error)) (res s)\<rparr>)"
    using within_res_put [OF twithinD(1) [OF t] ser] .
  have "twithin A ((if truthy ?error then s\<lparr>res := put ''error'' (Obj (serializeError x ?error)) (res s)\<rparr> else s), hs, p)"
    using twithin_state [OF t st] t by simp
  from twithin_settle [OF this er, of True] show ?thesis by (simp add: Let_def)
qed


lemma refs_Obj: "refs (Obj ps) = orefs ps"
  by (simp add: orefs_def)

lemma within_next_cb:
  assumes x: "ext_honest x" and h: "honest_handler h" and t: "twithin A (s, hs, p)"
  shows "twithin A (next_cb x h (s, hs, p))"
proof (cases "truthy (get ''error'' (res s))")
  case True
  have "refs (get ''error'' (res s)) \<subseteq> A"
    using within_get_res [OF twithinD(1) [OF t]] .
  from within_end_cb [OF x this t] True show ?thesis by (simp del: end_cb.simps)
next
  case False
  show ?thesis
  proof (cases "rh_truthy h")
    case rt: True
    let ?E = "Obj (newSerializableError x ''JsonRpcEngine: 'next' return handlers must be functions'')"
    have E: "refs ?E \<subseteq> A" using x unfolding ext_honest_def refs_Obj by simp
    obtain s1 hs1 p1 where M:
      "(if \<not> is_function h then end_cb x ?E (s, hs, p) else (s, hs, p)) = (s1, hs1, p1)"
      by (metis prod_cases3)
    have "twithin A (s1, hs1, p1)"
      using within_end_cb [OF x E t] t M by (auto simp del: end_cb.simps split: if_splits)
    from twithin_settle [OF twithin_push [OF this h], of Null False]
    have "twithin A (s1, hs1 @ [h], settle (Resolved (Null, False)) p1)" by simp
    with False rt M show ?thesis by (simp del: end_cb.simps)
  next
    case rf: False
    from twithin_settle [OF t, of Null False] False rf show ?thesis by simp
  qed
qed

lemma within_run_actions:
  "ext_honest x \<Longrightarrow> \<forall>a \<in> set as. action_refs a \<subseteq> A \<and> honest_action a \<Longrightarrow> twithin A t
     \<Longrightarrow> twithin A (run_actions x as t)"
proof (induction x as t rule: run_actions.induct)
  case (1 x t)
  then show ?case by simp
next
  case (2 x k v as s hs p)
  from "2.prems"(2) have v: "refs v \<subseteq> A"
    and rest: "\<forall>a \<in> set as. action_refs a \<subseteq> A \<and> honest_action a" by simp_all
  have "twithin A (s\<lparr>res := put k v (res s)\<rparr>, hs, p)"
    using twithin_state [OF "2.prems"(3) within_res_put [OF twithinD(1) [OF "2.prems"(3)] v]] .
  from "2.IH" [OF "2.prems"(1) rest this] show ?case by simp
next
  case (3 x k as s hs p)
  from "3.prems"(2) have rest: "\<forall>a \<in> set as. action_refs a \<subseteq> A \<and> honest_action a" by simp
  have "twithin A (s\<lparr>res := del k (res s)\<rparr>, hs, p)"
    using twithin_state [OF "3.prems"(3) within_res_del [OF twithinD(1) [OF "3.prems"(3)]]] .
  from "3.IH" [OF "3.prems"(1) rest this] show ?case by simp
next
  case (4 x k v as s hs p)
  from "4.prems"(2) have v: "refs v \<subseteq> A"
    and rest: "\<forall>a \<in> set as. action_refs a \<subseteq> A \<and> honest_action a" by simp_all
  have "twithin A (s\<lparr>req := put k v (req s)\<rparr>, hs, p)"
    using twithin_state [OF "4.prems"(3) within_req_put [OF twithinD(1) [OF "4.prems"(3)] v]] .
  from "4.IH" [OF "4.prems"(1) rest this] show ?case by simp
next
  case (5 x k as s hs p)
  from "5.prems"(2) have rest: "\<forall>a \<in> set as. action_refs a \<subseteq> A \<and> honest_action a" by simp
  have "twithin A (s\<lparr>req := del k (req s)\<rparr>, hs, p)"
    using twithin_state [OF "5.prems"(3) within_req_del [OF twithinD(1) [OF "5.prems"(3)]]] .
  from "5.IH" [OF "5.prems"(1) rest this] show ?case by simp
next
  case (6 x h as t)
  from "6.prems"(2) have h: "honest_handler h"
    and rest: "\<forall>a \<in> set as. action_refs a \<subseteq> A \<and> honest_action a" by simp_all
  obtain s hs p where t: "t = (s, hs, p)" by (cases t)
  have "twithin A (next_cb x h t)"
    using within_next_cb [OF "6.prems"(1) h] "6.prems"(3) unfolding t by blast
  from "6.IH" [OF "6.prems"(1) rest this] show ?case by (simp del: next_cb.simps)
next
  case (7 x e as t)
  from "7.prems"(2) have e: "refs e \<subseteq> A"
    and rest: "\<forall>a \<in> set as. action_refs a \<subseteq> A \<and> honest_action a" by simp_all
  obtain s hs p where t: "t = (s, hs, p)" by (cases t)
  have "twithin A (end_cb x e t)"
    using within_end_cb [OF "7.prems"(1) e] "7.prems"(3) unfolding t by blast
  from "7.IH" [OF "7.prems"(1) rest this] show ?case by (simp del: end_cb.simps)
next
  case (8 x e as t)
  from "8.prems"(2) have e: "refs e \<subseteq> A" by simp
  obtain s hs p where t: "t = (s, hs, p)" by (cases t)
  show ?case
    using within_end_cb [OF "8.prems"(1) e] "8.prems"(3) unfolding t by (simp del: end_cb.simps)
next
  case (9 x a v as s hs p)
  from "9.prems"(2) have a: "a \<in> A"
    and rest: "\<forall>a \<in> set as. action_refs a \<subseteq> A \<and> honest_action a" by simp_all
  have "twithin A (s\<lparr>written := (written s)(a \<mapsto> v)\<rparr>, hs, p)"
    using twithin_state [OF "9.prems"(3) within_written [OF twithinD(1) [OF "9.prems"(3)] a]] .
  from "9.IH" [OF "9.prems"(1) rest this] show ?case by simp
qed

lemma within_runMiddleware:
  "ext_honest x \<Longrightarrow> honest m \<Longrightarrow> within A s \<Longrightarrow> \<forall>h \<in> set hs. honest_handler h \<Longrightarrow>
     twithin A (runMiddleware x d m s hs)"
  and within_run_stack:
  "ext_honest x \<Longrightarrow> \<forall>m \<in> set ms. honest m \<Longrightarrow> within A s \<Longrightarrow> \<forall>h \<in> set hs. honest_handler h \<Longrightarrow>
     refs (fst r) \<subseteq> A \<Longrightarrow> twithin A (run_stack x d ms s hs r)"
proof (induction x d m s hs and x d ms s hs r rule: runMiddleware_run_stack.induct)
  case (1 x d f s hs)
  have sub: "orefs (req s) \<union> orefs (res s) \<subseteq> A"
    using "1.prems"(3) by (simp add: within_def)
  have acts: "\<forall>a \<in> set (f (req s) (res s)). action_refs a \<subseteq> A \<and> honest_action a"
    using "1.prems"(2) sub by fastforce
  have "twithin A (s\<lparr>log := log s @ [Invoked d (Middleware f)]\<rparr>, hs, Pending)"
    using "1.prems"(3,4) by (simp add: twithin_def)
  from within_run_actions [OF "1.prems"(1) acts this] show ?case by simp
next
  case (2 x d stack s hs)
  let ?s0 = "s\<lparr>log := log s @ [Invoked d (AsMiddleware stack)]\<rparr>"
  obtain s1 ihs p where R: "run_stack x (Suc d) stack ?s0 [] (Null, False) = (s1, ihs, p)"
    by (metis prod_cases3)
  from "2.IH" "2.prems" R have g: "twithin A (s1, ihs, p)" by simp
  note w1 = twithinD(1) [OF g]
  have outer: "twithin A (s', hs, Pending)" if "within A s'" for s'
    using that "2.prems"(4) by (simp add: twithin_def)
  show ?case
  proof (cases p)
    case (Resolved ec)
    obtain me c where ec: "ec = (me, c)" by (cases ec)
    have me: "refs me \<subseteq> A" using twithinD(3) [OF g] Resolved ec by simp
    show ?thesis
    proof (cases c)
      case True
      obtain s2 q where H: "runReturnHandlers (Suc d) (rev ihs) s1 = (s2, q)" by (metis surj_pair)
      have "hwithin A (runReturnHandlers (Suc d) (rev ihs) s1)"
        using within_runReturnHandlers [of "rev ihs" A s1 "Suc d"] twithinD(2) [OF g] w1 by simp
      with H have hw: "hwithin A (s2, q)" by simp
      note w2 = hwithinD(1) [OF hw]
      show ?thesis
      proof (cases q)
        case (Resolved u)
        with R \<open>p = Resolved ec\<close> ec True H within_end_cb [OF "2.prems"(1) me outer [OF w2]]
        show ?thesis by (simp del: end_cb.simps)
      next
        case (Rejected e)
        have "refs e \<subseteq> A" using hwithinD(2) [OF hw Rejected] .
        with R \<open>p = Resolved ec\<close> ec True H Rejected within_end_cb [OF "2.prems"(1) _ outer [OF w2], of e]
        show ?thesis by (simp del: end_cb.simps)
      next
        case Pending
        with R \<open>p = Resolved ec\<close> ec True H outer [OF w2]
        show ?thesis by (simp del: end_cb.simps)
      qed
    next
      case False
      have fwd: "honest_handler (Forward (rev ihs))" using twithinD(2) [OF g] by simp
      from within_next_cb [OF "2.prems"(1) fwd outer [OF w1]] R Resolved ec False
      show ?thesis by (simp del: next_cb.simps)
    qed
  next
    case (Rejected e)
    have "refs e \<subseteq> A" using twithinD(4) [OF g Rejected] .
    from within_end_cb [OF "2.prems"(1) this outer [OF w1]] R Rejected
    show ?thesis by (simp del: end_cb.simps)
  next
    case Pending
    with R outer [OF w1] show ?thesis by simp
  qed
next
  case (3 x d s hs r)
  then show ?case by (cases r) (simp add: twithin_def)
next
  case (4 x d m ms s hs r)
  obtain s' hs' p where M: "runMiddleware x d m s hs = (s', hs', p)" by (metis prod_cases3)
  from "4.IH"(1) "4.prems" M have g1: "twithin A (s', hs', p)" by simp
  show ?case
  proof (cases p)
    case (Resolved ec)
    obtain e c where ec: "ec = (e, c)" by (cases ec)
    show ?thesis
    proof (cases c)
      case True
      with M Resolved ec g1 show ?thesis by simp
    next
      case False
      have e: "refs e \<subseteq> A" using twithinD(3) [OF g1] Resolved ec by simp
      from "4.IH"(2) [OF M [symmetric] refl Resolved ec [symmetric] False "4.prems"(1)]
        "4.prems"(2) twithinD(1,2) [OF g1] e
      have "twithin A (run_stack x d ms s' hs' (e, c))" by simp
      with M Resolved ec False show ?thesis by simp
    qed
  next
    case (Rejected e)
    with M g1 show ?thesis by simp
  next
    case Pending
    with M g1 show ?thesis by simp
  qed
qed








section \<open>Requests that are not well-formed\<close>

text \<open>
  Claim C3. For a request that is not a plain object, or whose method is not a string, the
  engine calls no middleware (the log of calls is empty) and calls back at once with a
  validation error and a response that carries this error, the version tag 2.0 and the
  identifier of the input (undefined when the input has none); the promise form resolves
  with that response.
\<close>

theorem malformed_request_rejected_before_middleware:
  assumes "\<not> wellformed r"
  shows "handle_internal x stack r =
    \<lparr>caller_after = r, events = [],
     callback = Some (validation_error x r,
                [(''id'', get ''id'' (own_props r)), (''jsonrpc'', Str ''2.0''),
                 (''error'', validation_error x r)])\<rparr>
    \<and> promiseHandle x stack r =
        Resolved [(''id'', get ''id'' (own_props r)), (''jsonrpc'', Str ''2.0''),
                  (''error'', validation_error x r)]"
proof -
  have A: "handle_internal x stack r =
    \<lparr>caller_after = r, events = [],
     callback = Some (validation_error x r,
                [(''id'', get ''id'' (own_props r)), (''jsonrpc'', Str ''2.0''),
                 (''error'', validation_error x r)])\<rparr>"
  proof (cases "is_plain_object r")
    case True
    with assms have "typeof (get ''method'' (own_props r)) \<noteq> ''string''"
      by (simp add: wellformed_def)
    with True show ?thesis
      using not_plain_object_iff [of r]
      by (simp add: handle_internal_def Let_def validation_error_def)
  next
    case False
    then have "own_props r = []" by (cases r) auto
    with False show ?thesis
      using not_plain_object_iff [of r]
      by (simp add: handle_internal_def Let_def validation_error_def)
  qed
  then show ?thesis by (simp add: promiseHandle_def)
qed

theorem malformed_request_rejected_before_middleware_witness:
  "\<not> wellformed (Obj [(''id'', Num 3), (''method'', Num 5)])
   \<and> handle_internal sample_ext [fixed_result (Num 1)]
       (Obj [(''id'', Num 3), (''method'', Num 5)]) =
     \<lparr>caller_after = Obj [(''id'', Num 3), (''method'', Num 5)], events = [],
      callback = Some (Obj [(''message'', Str ''method must be string'')],
                 [(''id'', Num 3), (''jsonrpc'', Str ''2.0''),
                  (''error'', Obj [(''message'', Str ''method must be string'')])])\<rparr>"
proof -
  have h: "\<not> wellformed (Obj [(''id'', Num 3), (''method'', Num 5)])"
    by (simp add: wellformed_def get_def)
  show ?thesis
    using h malformed_request_rejected_before_middleware [OF h, of sample_ext
      "[fixed_result (Num 1)]"]
    by (simp add: validation_error_def sample_ext_def get_def)
qed

section \<open>Settling: when a dispatch calls back\<close>

lemma settle_not_Pending [simp]: "new \<noteq> Pending \<Longrightarrow> settle new old \<noteq> Pending"
  by (cases old) auto

lemma settle_keeps [simp]: "old \<noteq> Pending \<Longrightarrow> settle new old = old"
  by (cases old) auto

lemma handlerCallback_not_Pending [simp]: "handlerCallback e p \<noteq> Pending"
  by (simp add: handlerCallback_def)

lemma run_hactions_settled:
  "snd sp \<noteq> Pending \<or> (\<exists>a \<in> set as. is_hsignal a) \<Longrightarrow> snd (run_hactions as sp) \<noteq> Pending"
  by (induction as sp rule: run_hactions.induct) auto

lemma responsive_runHandler:
  "responsive_handler h \<Longrightarrow> snd (runHandler d h s) \<noteq> Pending"
  and responsive_runReturnHandlers:
  "\<forall>h \<in> set hs. responsive_handler h \<Longrightarrow> snd (runReturnHandlers d hs s) \<noteq> Pending"
proof (induction d h s and d hs s rule: runHandler_runReturnHandlers.induct)
  case (1 d v s)
  then show ?case by simp
next
  case (2 d f s)
  then show ?case by (simp add: run_hactions_settled)
next
  case (3 d hs s)
  then show ?case by (auto split: prod.splits promise.splits)
next
  case (4 d s)
  then show ?case by simp
next
  case (5 d h hs s)
  then show ?case by (auto split: prod.splits promise.splits)
qed

lemma end_cb_settled: "snd (snd (end_cb x e t)) \<noteq> Pending"
  by (cases t) (simp add: Let_def)

lemma end_cb_handlers: "fst (snd (end_cb x e t)) = fst (snd t)"
  by (cases t) (simp add: Let_def)

lemma next_cb_settled: "snd (snd (next_cb x h t)) \<noteq> Pending"
  by (cases t) (auto simp: Let_def split: prod.splits)

lemma next_cb_handlers:
  "set (fst (snd (next_cb x h t))) \<subseteq> insert h (set (fst (snd t)))"
  by (cases t) (auto simp: Let_def split: prod.splits if_splits)

lemma run_actions_keeps_settled:
  "snd (snd t) \<noteq> Pending \<Longrightarrow> snd (snd (run_actions x as t)) \<noteq> Pending"
proof (induction x as t rule: run_actions.induct)
  case (6 x h as t)
  then show ?case by (simp add: next_cb_settled del: next_cb.simps)
next
  case (7 x e as t)
  then show ?case by (simp add: end_cb_settled del: end_cb.simps)
next
  case (8 x e as t)
  then show ?case by (simp add: end_cb_settled del: end_cb.simps)
qed auto

lemma run_actions_settled:
  "\<exists>a \<in> set as. is_signal a \<Longrightarrow> snd (snd (run_actions x as t)) \<noteq> Pending"
proof (induction x as t rule: run_actions.induct)
  case (6 x h as t)
  then show ?case by (simp add: next_cb_settled run_actions_keeps_settled del: next_cb.simps)
next
  case (7 x e as t)
  then show ?case by (simp add: end_cb_settled run_actions_keeps_settled del: end_cb.simps)
next
  case (8 x e as t)
  then show ?case by (simp add: end_cb_settled del: end_cb.simps)
qed auto

lemma run_actions_responsive_handlers:
  "\<forall>a \<in> set as. responsive_action a \<Longrightarrow> \<forall>h \<in> set (fst (snd t)). responsive_handler h
   \<Longrightarrow> \<forall>h \<in> set (fst (snd (run_actions x as t))). responsive_handler h"
proof (induction x as t rule: run_actions.induct)
  case (6 x h as t)
  then show ?case using next_cb_handlers [of x h t] by (auto simp del: next_cb.simps)
next
  case (7 x e as t)
  then show ?case by (simp add: end_cb_handlers del: end_cb.simps)
next
  case (8 x e as t)
  then show ?case by (simp add: end_cb_handlers del: end_cb.simps)
qed auto


lemma responsive_runMiddleware:
  "responsive m \<Longrightarrow> \<forall>h \<in> set hs. responsive_handler h \<Longrightarrow>
     snd (snd (runMiddleware x d m s hs)) \<noteq> Pending
     \<and> (\<forall>h \<in> set (fst (snd (runMiddleware x d m s hs))). responsive_handler h)"
  and responsive_run_stack:
  "\<forall>m \<in> set ms. responsive m \<Longrightarrow> \<forall>h \<in> set hs. responsive_handler h \<Longrightarrow>
     snd (snd (run_stack x d ms s hs r)) \<noteq> Pending
     \<and> (\<forall>h \<in> set (fst (snd (run_stack x d ms s hs r))). responsive_handler h)"
proof (induction x d m s hs and x d ms s hs r rule: runMiddleware_run_stack.induct)
  case (1 x d f s hs)
  from "1.prems" have A: "\<exists>a \<in> set (f (req s) (res s)). is_signal a"
    and B: "\<forall>a \<in> set (f (req s) (res s)). responsive_action a"
    by auto
  show ?case
    using run_actions_settled [OF A]
      run_actions_responsive_handlers [OF B, of "(s\<lparr>log := log s @ [Invoked d (Middleware f)]\<rparr>, hs, Pending)" x]
      "1.prems"(2)
    by simp
next
  case (2 x d stack s hs)
  obtain s1 ihs p where R:
    "run_stack x (Suc d) stack (s\<lparr>log := log s @ [Invoked d (AsMiddleware stack)]\<rparr>) [] (Null, False)
       = (s1, ihs, p)"
    by (metis prod_cases3)
  from 2 R have p: "p \<noteq> Pending" and ihs: "\<forall>h \<in> set ihs. responsive_handler h"
    by auto
  obtain s2 q where H: "runReturnHandlers (Suc d) (rev ihs) s1 = (s2, q)"
    by (metis surj_pair)
  have q: "q \<noteq> Pending"
    using responsive_runReturnHandlers [of "rev ihs" "Suc d" s1] ihs H by simp
  have fwd: "responsive_handler (Forward (rev ihs))" using ihs by simp
  have nx: "\<forall>h \<in> set (fst (snd (next_cb x (Forward (rev ihs)) (s1, hs, Pending)))). responsive_handler h"
    using next_cb_handlers [of x "Forward (rev ihs)" "(s1, hs, Pending)"] fwd 2(3) by auto
  show ?case
    using R H p q nx 2(3)
    by (auto simp add: end_cb_settled end_cb_handlers next_cb_settled
             split: promise.splits prod.splits simp del: end_cb.simps next_cb.simps)
next
  case (3 x d s hs r)
  then show ?case by simp
next
  case (4 x d m ms s hs r)
  obtain s' hs' p where M: "runMiddleware x d m s hs = (s', hs', p)"
    by (metis prod_cases3)
  from 4 M have p: "p \<noteq> Pending" and hs': "\<forall>h \<in> set hs'. responsive_handler h"
    by auto
  show ?case
  proof (cases p)
    case (Resolved ec)
    obtain e c where ec: "ec = (e, c)" by (cases ec)
    show ?thesis
    proof (cases c)
      case True
      with M Resolved ec hs' show ?thesis by simp
    next
      case False
      have "snd (snd (run_stack x d ms s' hs' (e, c))) \<noteq> Pending
         \<and> (\<forall>h \<in> set (fst (snd (run_stack x d ms s' hs' (e, c)))). responsive_handler h)"
        using "4.IH"(2) [OF M [symmetric] refl Resolved ec [symmetric] False] "4.prems"(1) hs'
        by simp
      with M Resolved ec False show ?thesis by simp
    qed
  next
    case (Rejected e)
    with M hs' show ?thesis by simp
  next
    case Pending
    with p show ?thesis by simp
  qed
qed


lemma responsive_runAllMiddleware:
  "\<forall>m \<in> set stack. responsive m \<Longrightarrow> runAllMiddleware x d stack s = (s', p) \<Longrightarrow>
     p \<noteq> Pending \<and> (\<forall>e c hs. p = Resolved (e, c, hs) \<longrightarrow> (\<forall>h \<in> set hs. responsive_handler h))"
  using responsive_run_stack [of stack "[]" x d s "(Null, False)"]
  by (auto simp: runAllMiddleware_def split: prod.splits promise.splits)

lemma responsive_processRequest:
  assumes "\<forall>m \<in> set stack. responsive m"
  shows "snd (processRequest x stack s) \<noteq> Pending"
proof -
  obtain s1 p where A: "runAllMiddleware x 0 stack s = (s1, p)" by (metis surj_pair)
  note R = responsive_runAllMiddleware [OF assms A]
  show ?thesis
  proof (cases p)
    case (Resolved t)
    obtain e c hs where t: "t = (e, c, hs)" by (cases t)
    with R Resolved have "\<forall>h \<in> set hs. responsive_handler h" by simp
    then have "snd (runReturnHandlers 0 hs s1) \<noteq> Pending"
      by (rule responsive_runReturnHandlers)
    with A Resolved t show ?thesis
      by (auto simp: processRequest_def split: option.splits prod.splits promise.splits)
  next
    case (Rejected e)
    with A show ?thesis by (simp add: processRequest_def)
  next
    case Pending
    with R show ?thesis by simp
  qed
qed

lemma callback_error_response:
  assumes "callback (handle_internal x stack r) = Some (err, rs)" and "truthy err"
  shows "has ''error'' rs \<and> truthy (get ''error'' rs) \<and> \<not> has ''result'' rs"
  using assms
  by (auto simp: handle_internal_def Let_def truthy_get_has
           split: if_splits prod.splits promise.splits)

lemma responsive_callback:
  assumes "\<forall>m \<in> set stack. responsive m"
  shows "callback (handle_internal x stack r) \<noteq> None"
  using responsive_processRequest [OF assms, of x "initial r"]
  by (auto simp: handle_internal_def Let_def split: prod.splits promise.splits)

section \<open>The promise form never rejects\<close>

text \<open>
  Claim C10, as far as it holds. The promise returned for a single request is never
  rejected. Whenever the engine's callback is called, the promise is resolved with the
  response passed to it, and the callback is called whenever every middleware of the stack
  is responsive. The error a dispatch reports is the first argument of the callback: for a
  request that is not well-formed it is the validation error, and for a well-formed one it
  is whatever \<^verbatim>\<open>_processRequest\<close> rejects with. Whenever the reported error is truthy, the
  response has an error property with a truthy value and no result.
\<close>

theorem promiseHandle_never_rejects:
  "promiseHandle x stack r \<noteq> Rejected e
   \<and> (callback (handle_internal x stack r) = Some (err, rs) \<longrightarrow>
        promiseHandle x stack r = Resolved rs
        \<and> (truthy err \<longrightarrow> has ''error'' rs \<and> truthy (get ''error'' rs) \<and> \<not> has ''result'' rs))
   \<and> (\<not> wellformed r \<longrightarrow>
        (\<exists>rs'. callback (handle_internal x stack r) = Some (validation_error x r, rs'))
        \<and> truthy (validation_error x r))
   \<and> (wellformed r \<and> snd (processRequest x stack (initial r)) = Rejected err \<longrightarrow>
        (\<exists>rs'. callback (handle_internal x stack r) = Some (err, rs')))
   \<and> ((\<forall>m \<in> set stack. responsive m) \<longrightarrow> (\<exists>rs'. promiseHandle x stack r = Resolved rs'))
   \<and> (\<not> isArray r \<longrightarrow> handle x stack r = Single (promiseHandle x stack r))"
proof -
  have 1: "promiseHandle x stack r \<noteq> Rejected e"
    by (simp add: promiseHandle_def split: option.splits prod.splits)
  have 2: "callback (handle_internal x stack r) = Some (err, rs) \<Longrightarrow>
        promiseHandle x stack r = Resolved rs"
    by (simp add: promiseHandle_def)
  have 3: "(\<forall>m \<in> set stack. responsive m) \<Longrightarrow> \<exists>rs'. promiseHandle x stack r = Resolved rs'"
    using responsive_callback [of stack x r]
    by (auto simp: promiseHandle_def split: option.splits)
  have 4: "\<not> isArray r \<Longrightarrow> handle x stack r = Single (promiseHandle x stack r)"
    by (cases r) (simp_all add: handle_def)
  have 5: "(\<exists>rs'. callback (handle_internal x stack r) = Some (validation_error x r, rs'))
        \<and> truthy (validation_error x r)" if "\<not> wellformed r"
  proof (cases "is_plain_object r")
    case True
    with that have "typeof (get ''method'' (own_props r)) \<noteq> ''string''"
      by (simp add: wellformed_def)
    with True show ?thesis
      using not_plain_object_iff [of r]
      by (simp add: handle_internal_def Let_def validation_error_def)
  next
    case False
    then show ?thesis
      using not_plain_object_iff [of r]
      by (simp add: handle_internal_def Let_def validation_error_def)
  qed
  have 6: "\<exists>rs'. callback (handle_internal x stack r) = Some (err, rs')"
    if "wellformed r" "snd (processRequest x stack (initial r)) = Rejected err"
    using wellformed_checks [OF that(1)] that(2)
    by (cases "processRequest x stack (initial r)") (simp add: handle_internal_def Let_def)
  show ?thesis using 1 2 3 4 5 6 callback_error_response [of x stack r err rs] by blast
qed

theorem promiseHandle_never_rejects_witness:
  "responsive (throwing (Str ''boom''))
   \<and> wellformed sample_request
   \<and> truthy (Str ''boom'')
   \<and> snd (processRequest sample_ext [throwing (Str ''boom'')] (initial sample_request)) =
       Rejected (Str ''boom'')
   \<and> callback (handle_internal sample_ext [throwing (Str ''boom'')] sample_request) =
       Some (Str ''boom'', [(''id'', Num 7), (''jsonrpc'', Str ''2.0''),
          (''error'', Obj [(''code'', Num (- 32603)), (''data'', Str ''boom'')])])
   \<and> promiseHandle sample_ext [throwing (Str ''boom'')] sample_request =
       Resolved [(''id'', Num 7), (''jsonrpc'', Str ''2.0''),
          (''error'', Obj [(''code'', Num (- 32603)), (''data'', Str ''boom'')])]
   \<and> \<not> wellformed Null
   \<and> callback (handle_internal sample_ext [throwing (Str ''boom'')] Null) =
       Some (Obj [(''message'', Str ''request must be plain object'')],
         [(''id'', Undefined), (''jsonrpc'', Str ''2.0''),
          (''error'', Obj [(''message'', Str ''request must be plain object'')])])"
  using promiseHandle_never_rejects [of sample_ext "[throwing (Str ''boom'')]" sample_request Null
      "Str ''boom''" "[(''id'', Num 7), (''jsonrpc'', Str ''2.0''),
          (''error'', Obj [(''code'', Num (- 32603)), (''data'', Str ''boom'')])]"]
    promiseHandle_never_rejects [of sample_ext "[throwing (Str ''boom'')]" Null Null
      "validation_error sample_ext Null" "[(''id'', Undefined), (''jsonrpc'', Str ''2.0''),
          (''error'', Obj [(''message'', Str ''request must be plain object'')])]"]
  by (simp add: throwing_def sample_ext_def sample_request_def handle_internal_def
      processRequest_def runAllMiddleware_def checkForCompletion_def initial_def Let_def
      put_def del_def wellformed_def validation_error_def)

text \<open>
  The claim says the promise always resolves, and that any error raised during processing
  can be seen in the response's error. With a middleware that returns without calling
  \<^verbatim>\<open>next\<close> or \<^verbatim>\<open>end\<close>, the promise of \<^verbatim>\<open>_runMiddleware\<close> is never resolved, the
  callback of \<^verbatim>\<open>_handle\<close> is never called, and the promise stays pending. And when a
  middleware ends the request with the error \<^verbatim>\<open>"boom"\<close> and a return handler then deletes
  \<^verbatim>\<open>res.error\<close> and throws \<^verbatim>\<open>0\<close>, the dispatch reports the falsy \<^verbatim>\<open>0\<close> and the
  promise resolves with a response that holds the result and no error.
\<close>

theorem promiseHandle_pending_counterexample:
  "handle sample_ext [silent] sample_request = Single Pending
   \<and> truthy (Str ''boom'')
   \<and> events (handle_internal sample_ext [registering wiping, failing] sample_request) =
       [Invoked 0 (registering wiping), Invoked 0 failing, Ran 0 wiping]
   \<and> callback (handle_internal sample_ext [registering wiping, failing] sample_request) =
       Some (Num 0, [(''id'', Num 7), (''jsonrpc'', Str ''2.0''), (''result'', Num 1)])
   \<and> promiseHandle sample_ext [registering wiping, failing] sample_request =
       Resolved [(''id'', Num 7), (''jsonrpc'', Str ''2.0''), (''result'', Num 1)]"
  by (simp add: handle_def promiseHandle_def sample_defs wiping_def engine_defs)


section \<open>Batches\<close>

lemma promise_all_map_Resolved: "promise_all (map Resolved vs) = Resolved vs"
  by (induction vs) auto

lemma promise_all_ResolvedD: "promise_all ps = Resolved vs \<Longrightarrow> ps = map Resolved vs"
  by (induction ps arbitrary: vs rule: promise_all.induct) (auto split: promise.splits)

lemma promise_all_Resolved:
  "promise_all ps = Resolved vs \<longleftrightarrow> ps = map Resolved vs"
  using promise_all_map_Resolved promise_all_ResolvedD by metis

lemma promiseHandle_not_Rejected:
  "promiseHandle x stack r \<noteq> Rejected e" "Rejected e \<noteq> promiseHandle x stack r"
  by (simp_all add: promiseHandle_def split: option.splits prod.splits)

lemma promise_all_Rejected:
  "promise_all ps = Rejected e \<Longrightarrow> Rejected e \<in> set ps"
  by (induction ps rule: promise_all.induct) (auto split: promise.splits)

lemma handleBatch_eq: "handleBatch x stack reqs = promise_all (map (promiseHandle x stack) reqs)"
  by (simp add: handleBatch_def split: promise.splits)

lemma handleBatch_Resolved_iff:
  "handleBatch x stack reqs = Resolved rs \<longleftrightarrow>
     length rs = length reqs \<and> (\<forall>i < length reqs. promiseHandle x stack (reqs ! i) = Resolved (rs ! i))"
  by (auto simp: handleBatch_eq promise_all_Resolved list_eq_iff_nth_eq)

lemma promise_all_Pending:
  "promise_all ps = Pending \<Longrightarrow> Pending \<in> set ps"
  by (induction ps rule: promise_all.induct) (auto split: promise.splits)


text \<open>
  Claim C6, as far as it holds. A batch is never rejected. It resolves with \<open>rs\<close> exactly
  when \<open>rs\<close> is as long as the batch and every request \<open>i\<close>, dispatched alone, resolves with
  \<open>rs ! i\<close>; it does resolve when every item settles, in particular when every middleware
  is responsive. Replacing request \<open>j\<close> by another one leaves every other position's
  response as it was, and an item whose dispatch ends with an error has an error response
  at its position.
\<close>

theorem handleBatch_positions:
  "handleBatch x stack reqs \<noteq> Rejected e
   \<and> (handleBatch x stack reqs = Resolved rs \<longleftrightarrow>
        length rs = length reqs
        \<and> (\<forall>i < length reqs. promiseHandle x stack (reqs ! i) = Resolved (rs ! i)))
   \<and> ((\<forall>r \<in> set reqs. promiseHandle x stack r \<noteq> Pending) \<longrightarrow>
        (\<exists>rs1. handleBatch x stack reqs = Resolved rs1))
   \<and> ((\<forall>m \<in> set stack. responsive m) \<longrightarrow> (\<exists>rs1. handleBatch x stack reqs = Resolved rs1))
   \<and> (handleBatch x stack reqs = Resolved rs \<and> handleBatch x stack (reqs[j := r']) = Resolved rs'
        \<and> i < length reqs \<and> i \<noteq> j \<longrightarrow> rs' ! i = rs ! i)
   \<and> (handleBatch x stack reqs = Resolved rs \<and> k < length reqs
        \<and> callback (handle_internal x stack (reqs ! k)) = Some (err, rk) \<and> truthy err \<longrightarrow>
        rs ! k = rk \<and> has ''error'' (rs ! k) \<and> \<not> has ''result'' (rs ! k))
   \<and> handle x stack (Arr reqs) = Batch (handleBatch x stack reqs)"
proof -
  have 1: "handleBatch x stack reqs \<noteq> Rejected e"
    using promise_all_Rejected [of "map (promiseHandle x stack) reqs" e]
    by (auto simp: handleBatch_eq promiseHandle_not_Rejected)
  have 3: "\<exists>rs1. handleBatch x stack reqs = Resolved rs1"
    if "\<forall>r \<in> set reqs. promiseHandle x stack r \<noteq> Pending"
  proof (cases "handleBatch x stack reqs")
    case (Resolved vs)
    then show ?thesis by simp
  next
    case (Rejected e')
    then show ?thesis
      using promise_all_Rejected [of "map (promiseHandle x stack) reqs" e']
      by (auto simp: handleBatch_eq promiseHandle_not_Rejected)
  next
    case Pending
    then show ?thesis
      using promise_all_Pending [of "map (promiseHandle x stack) reqs"] that
      by (auto simp: handleBatch_eq)
  qed
  have 4: "\<exists>rs1. handleBatch x stack reqs = Resolved rs1" if "\<forall>m \<in> set stack. responsive m"
  proof (rule 3, rule ballI)
    fix r
    show "promiseHandle x stack r \<noteq> Pending"
      using responsive_callback [OF that, of x r]
      by (auto simp: promiseHandle_def split: option.splits)
  qed
  have 5: "rs' ! i = rs ! i"
    if "handleBatch x stack reqs = Resolved rs" "handleBatch x stack (reqs[j := r']) = Resolved rs'"
      "i < length reqs" "i \<noteq> j"
  proof -
    from that(1,3) have "promiseHandle x stack (reqs ! i) = Resolved (rs ! i)"
      by (simp add: handleBatch_Resolved_iff)
    moreover from that(2,3,4) have "promiseHandle x stack (reqs ! i) = Resolved (rs' ! i)"
      by (auto simp: handleBatch_Resolved_iff)
    ultimately show ?thesis by simp
  qed
  have 6: "rs ! k = rk \<and> has ''error'' (rs ! k) \<and> \<not> has ''result'' (rs ! k)"
    if "handleBatch x stack reqs = Resolved rs" "k < length reqs"
      "callback (handle_internal x stack (reqs ! k)) = Some (err, rk)" "truthy err"
  proof -
    from that(1,2) have "promiseHandle x stack (reqs ! k) = Resolved (rs ! k)"
      by (simp add: handleBatch_Resolved_iff)
    with that(3) have "rs ! k = rk" by (simp add: promiseHandle_def)
    with callback_error_response [OF that(3,4)] show ?thesis by simp
  qed
  have 7: "handle x stack (Arr reqs) = Batch (handleBatch x stack reqs)"
    by (simp add: handle_def)
  show ?thesis
    using 1 3 4 5 6 7 handleBatch_Resolved_iff [of x stack reqs rs] by blast
qed

theorem handleBatch_positions_witness:
  "responsive picky
   \<and> truthy (Str ''boom'')
   \<and> callback (handle_internal sample_ext [picky] (request_with_id 1)) =
       Some (Str ''boom'', [(''id'', Num 1), (''jsonrpc'', Undefined),
          (''error'', Obj [(''code'', Num (- 32603)), (''data'', Str ''boom'')])])
   \<and> handleBatch sample_ext [picky] [request_with_id 0, request_with_id 1, request_with_id 2] =
       Resolved
        [[(''id'', Num 0), (''jsonrpc'', Undefined), (''result'', Num 0)],
         [(''id'', Num 1), (''jsonrpc'', Undefined),
          (''error'', Obj [(''code'', Num (- 32603)), (''data'', Str ''boom'')])],
         [(''id'', Num 2), (''jsonrpc'', Undefined), (''result'', Num 2)]]
   \<and> handleBatch sample_ext [picky] [request_with_id 0, request_with_id 1, request_with_id 5] =
       Resolved
        [[(''id'', Num 0), (''jsonrpc'', Undefined), (''result'', Num 0)],
         [(''id'', Num 1), (''jsonrpc'', Undefined),
          (''error'', Obj [(''code'', Num (- 32603)), (''data'', Str ''boom'')])],
         [(''id'', Num 5), (''jsonrpc'', Undefined), (''result'', Num 5)]]"
  using handleBatch_positions [of sample_ext "[picky]"
      "[request_with_id 0, request_with_id 1, request_with_id 2]" Null
      "[[(''id'', Num 0), (''jsonrpc'', Undefined), (''result'', Num 0)],
         [(''id'', Num 1), (''jsonrpc'', Undefined),
          (''error'', Obj [(''code'', Num (- 32603)), (''data'', Str ''boom'')])],
         [(''id'', Num 2), (''jsonrpc'', Undefined), (''result'', Num 2)]]"
      2 "request_with_id 5"
      "[[(''id'', Num 0), (''jsonrpc'', Undefined), (''result'', Num 0)],
         [(''id'', Num 1), (''jsonrpc'', Undefined),
          (''error'', Obj [(''code'', Num (- 32603)), (''data'', Str ''boom'')])],
         [(''id'', Num 5), (''jsonrpc'', Undefined), (''result'', Num 5)]]"
      0 1 "Str ''boom''"
      "[(''id'', Num 1), (''jsonrpc'', Undefined),
          (''error'', Obj [(''code'', Num (- 32603)), (''data'', Str ''boom'')])]"]
  by (simp add: picky_def request_with_id_def sample_ext_def handleBatch_def promiseHandle_def
      handle_internal_def processRequest_def runAllMiddleware_def checkForCompletion_def
      initial_def Let_def put_def del_def)

text \<open>
  The claim says every batch returns a response sequence. When one item is handled by a
  middleware that never signals, that item's promise stays pending and so does
  \<^verbatim>\<open>Promise.all\<close>: the batch returns nothing.
\<close>

theorem handleBatch_pending_counterexample:
  "handle sample_ext [silent] (Arr [sample_request]) = Batch Pending"
  by (simp add: handle_def handleBatch_def promiseHandle_def silent_def sample_request_def
      handle_internal_def processRequest_def runAllMiddleware_def initial_def)

section \<open>An engine as a middleware of another engine\<close>

text \<open>
  Claim C7, as far as it holds. Let the inner engine have the single middleware that sets
  the result to \<open>v\<close> and calls \<^verbatim>\<open>end()\<close>, and let the outer engine have the inner one,
  through \<^verbatim>\<open>asMiddleware()\<close>, as its only middleware. For every well-formed request the
  outer engine answers with the request's identifier and version tag and the result \<open>v\<close>;
  and for every request whatsoever it calls back with the same error and response as the
  inner engine does when it handles the request itself.
\<close>

theorem nested_engine_fixed_result:
  "(wellformed r \<longrightarrow>
      promiseHandle x [AsMiddleware [fixed_result v]] r =
        Resolved [(''id'', get ''id'' (own_props r)), (''jsonrpc'', get ''jsonrpc'' (own_props r)),
                  (''result'', v)])
   \<and> callback (handle_internal x [AsMiddleware [fixed_result v]] r) =
     callback (handle_internal x [fixed_result v] r)"
proof -
  have A: "callback (handle_internal x [AsMiddleware [fixed_result v]] r) =
     callback (handle_internal x [fixed_result v] r)"
    by (simp add: handle_internal_def processRequest_def runAllMiddleware_def
      checkForCompletion_def fixed_result_def initial_def Let_def)
  have B: "promiseHandle x [AsMiddleware [fixed_result v]] r =
        Resolved [(''id'', get ''id'' (own_props r)), (''jsonrpc'', get ''jsonrpc'' (own_props r)),
                  (''result'', v)]" if "wellformed r"
    using wellformed_checks [OF that]
    by (simp add: promiseHandle_def handle_internal_def processRequest_def runAllMiddleware_def
      checkForCompletion_def fixed_result_def initial_def Let_def put_def)
  show ?thesis using A B by blast
qed


theorem nested_engine_fixed_result_witness:
  "wellformed sample_request
   \<and> promiseHandle sample_ext [AsMiddleware [fixed_result (Num 42)]] sample_request =
       Resolved [(''id'', Num 7), (''jsonrpc'', Str ''2.0''), (''result'', Num 42)]"
  using nested_engine_fixed_result [of sample_request sample_ext "Num 42"]
  by (simp add: wellformed_def sample_request_def)

text \<open>
  The claim says so for every request. A request that is not well-formed never reaches the
  middleware: the outer engine answers \<^verbatim>\<open>null\<close> with the validation error, not with the
  fixed result.
\<close>

theorem nested_engine_malformed_counterexample:
  "promiseHandle sample_ext [AsMiddleware [fixed_result (Num 42)]] Null =
     Resolved [(''id'', Undefined), (''jsonrpc'', Str ''2.0''),
               (''error'', Obj [(''message'', Str ''request must be plain object'')])]
   \<and> \<not> has ''result'' [(''id'', Undefined), (''jsonrpc'', Str ''2.0''),
               (''error'', Obj [(''message'', Str ''request must be plain object'')])]"
  by (simp add: promiseHandle_def handle_internal_def sample_ext_def Let_def)

section \<open>Halting the stack\<close>

lemma run_stack_append_continue:
  "run_stack x d ms1 s hs r = (s', hs', Resolved (e, False)) \<Longrightarrow>
   run_stack x d (ms1 @ ms2) s hs r = run_stack x d ms2 s' hs' (e, False)"
proof (induction ms1 arbitrary: s hs r)
  case Nil
  then show ?case by simp
next
  case (Cons m ms1)
  obtain sa ha pa where M: "runMiddleware x d m s hs = (sa, ha, pa)" by (metis prod_cases3)
  show ?case
  proof (cases pa)
    case (Resolved ec)
    obtain ea ca where ec: "ec = (ea, ca)" by (cases ec)
    show ?thesis
    proof (cases ca)
      case True
      with Cons.prems M Resolved ec show ?thesis by simp
    next
      case False
      with Cons.prems M Resolved ec have "run_stack x d ms1 sa ha (ea, False) = (s', hs', Resolved (e, False))"
        by simp
      from Cons.IH [OF this] M Resolved ec False show ?thesis by simp
    qed
  next
    case (Rejected e')
    with Cons.prems M show ?thesis by simp
  next
    case Pending
    with Cons.prems M show ?thesis by simp
  qed
qed

lemma run_actions_append:
  "\<forall>a \<in> set as. \<not> is_signal a \<Longrightarrow>
   run_actions x (as @ bs) t = run_actions x bs (run_actions x as t)"
  by (induction x as t rule: run_actions.induct) auto

lemma run_actions_quiet:
  "\<forall>a \<in> set as. \<not> is_signal a \<Longrightarrow> run_actions x as (s, hs, p) = (s', hs', p') \<Longrightarrow>
   hs' = hs \<and> p' = p \<and> log s' = log s"
  by (induction x as "(s, hs, p)" arbitrary: s rule: run_actions.induct) auto

lemma error_signal_run:
  "error_signal s sig = Some e \<Longrightarrow>
   run_actions x [sig] (s, hs, Pending) =
     (s\<lparr>res := put ''error'' (Obj (serializeError x e)) (res s)\<rparr>, hs, Resolved (e, True))
   \<and> truthy e"
  by (cases sig) (auto simp: Let_def split: if_splits)

lemma end_cb_log: "log (fst (end_cb x e t)) = log (fst t)"
  by (cases t) (simp add: Let_def)

lemma next_cb_log: "log (fst (next_cb x h t)) = log (fst t)"
  by (cases t) (auto simp: Let_def split: prod.splits)

lemma run_actions_log: "log (fst (run_actions x as t)) = log (fst t)"
proof (induction x as t rule: run_actions.induct)
  case (6 x h as t)
  then show ?case by (simp add: next_cb_log del: next_cb.simps)
next
  case (7 x e as t)
  then show ?case by (simp add: end_cb_log del: end_cb.simps)
next
  case (8 x e as t)
  then show ?case by (simp add: end_cb_log del: end_cb.simps)
qed auto

lemma end_cb_promise: "snd (snd t) \<noteq> Pending \<Longrightarrow> snd (snd (end_cb x e t)) = snd (snd t)"
  by (cases t) (simp add: Let_def)

lemma next_cb_promise: "snd (snd t) \<noteq> Pending \<Longrightarrow> snd (snd (next_cb x h t)) = snd (snd t)"
  by (cases t) (auto simp: Let_def split: prod.splits)

lemma run_actions_promise:
  "snd (snd t) \<noteq> Pending \<Longrightarrow> snd (snd (run_actions x as t)) = snd (snd t)"
proof (induction x as t rule: run_actions.induct)
  case (6 x h as t)
  then show ?case by (simp add: next_cb_promise del: next_cb.simps)
next
  case (7 x e as t)
  then show ?case by (simp add: end_cb_promise del: end_cb.simps)
next
  case (8 x e as t)
  then show ?case by (simp add: end_cb_promise del: end_cb.simps)
qed auto

lemma log_run_hactions: "log (fst (run_hactions as sp)) = log (fst sp)"
  by (induction as sp rule: run_hactions.induct) auto

lemma middleware_calls_append [simp]:
  "middleware_calls (xs @ ys) = middleware_calls xs @ middleware_calls ys"
  by (induction xs rule: middleware_calls.induct) auto

lemma invoked_runHandler:
  "middleware_calls (log (fst (runHandler d h s))) = middleware_calls (log s)"
  and invoked_runReturnHandlers:
  "middleware_calls (log (fst (runReturnHandlers d hs s))) = middleware_calls (log s)"
proof (induction d h s and d hs s rule: runHandler_runReturnHandlers.induct)
  case (1 d v s)
  then show ?case by simp
next
  case (2 d f s)
  then show ?case by (simp add: log_run_hactions)
next
  case (3 d hs s)
  then show ?case by (auto split: prod.splits promise.splits)
next
  case (4 d s)
  then show ?case by simp
next
  case (5 d h hs s)
  then show ?case by (auto split: prod.splits promise.splits)
qed

lemma invoked_runReturnHandlersD:
  "runReturnHandlers d hs s = (s', p) \<Longrightarrow> middleware_calls (log s') = middleware_calls (log s)"
  using invoked_runReturnHandlers [of d hs s] by simp

lemma invoked_processRequest:
  "runAllMiddleware x 0 stack s = (s1, p) \<Longrightarrow>
     middleware_calls (log (fst (processRequest x stack s))) = middleware_calls (log s1)"
  by (auto simp: processRequest_def split: promise.splits prod.splits option.splits
      dest: invoked_runReturnHandlersD)

lemma events_processRequest:
  "wellformed r \<Longrightarrow> events (handle_internal x stack r) = log (fst (processRequest x stack (initial r)))"
  using wellformed_checks [of r]
  by (auto simp: handle_internal_def Let_def split: promise.splits prod.splits)

text \<open>
  Claim C2, as far as it holds. Let the middleware before \<open>Middleware f\<close> all have called
  \<^verbatim>\<open>next\<close>, and let the turn of \<open>Middleware f\<close> be some property writes followed, as its
  first signal, by one that ends the turn with the error \<open>e\<close>: \<^verbatim>\<open>end(e)\<close> or
  \<^verbatim>\<open>throw e\<close> with a truthy \<open>e\<close>, or else \<^verbatim>\<open>next\<close>, or \<^verbatim>\<open>end\<close> or \<^verbatim>\<open>throw\<close> with
  a falsy value, while the response's error is already the truthy \<open>e\<close>. Then, whatever
  the turn does afterwards, the stack halts with \<open>[e, true]\<close> and the log ends with the
  call of \<open>Middleware f\<close>: none of the later middleware is called, the stack and the whole
  dispatch are the same as with the later middleware removed, and the middleware called
  in the whole dispatch of a well-formed request are those called before and
  \<open>Middleware f\<close>. When the signal is the last action of the turn, the response's error
  is the serialized \<open>e\<close> when the stack halts, and if moreover no return handler was
  registered, the dispatch calls back with \<open>e\<close> and a response whose error is the
  serialized \<open>e\<close>.
\<close>

theorem error_turn_halts_stack:
  assumes pre: "run_stack x d pre s hs r = (s1, hs1, Resolved (e1, False))"
    and script: "f (req s1) (res s1) = before @ sig # after"
    and quiet: "\<forall>a \<in> set before. \<not> is_signal a"
    and before: "run_actions x before (s1\<lparr>log := log s1 @ [Invoked d (Middleware f)]\<rparr>, hs1, Pending) = (sb, hsb, pb)"
    and sig: "error_signal sb sig = Some e"
  shows "(\<exists>s2 hs2. run_stack x d (pre @ Middleware f # post) s hs r = (s2, hs2, Resolved (e, True))
            \<and> log s2 = log s1 @ [Invoked d (Middleware f)])
     \<and> run_stack x d (pre @ Middleware f # post) s hs r = run_stack x d (pre @ [Middleware f]) s hs r
     \<and> (s = initial rq \<and> d = 0 \<and> hs = [] \<and> r = (Null, False) \<longrightarrow>
          handle_internal x (pre @ Middleware f # post) rq = handle_internal x (pre @ [Middleware f]) rq)
     \<and> (wellformed rq \<and> s = initial rq \<and> d = 0 \<and> hs = [] \<and> r = (Null, False) \<longrightarrow>
          middleware_calls (events (handle_internal x (pre @ Middleware f # post) rq)) =
            middleware_calls (log s1) @ [Middleware f])
     \<and> (after = [] \<longrightarrow>
          run_stack x d (pre @ Middleware f # post) s hs r =
            (sb\<lparr>res := put ''error'' (Obj (serializeError x e)) (res sb)\<rparr>, hs1, Resolved (e, True))
          \<and> get ''error'' (res (fst (run_stack x d (pre @ Middleware f # post) s hs r))) =
              Obj (serializeError x e))
     \<and> (after = [] \<and> wellformed rq \<and> s = initial rq \<and> d = 0 \<and> hs = [] \<and> r = (Null, False) \<and> hs1 = [] \<longrightarrow>
          callback (handle_internal x (pre @ Middleware f # post) rq) =
            Some (e, del ''result'' (put ''error'' (Obj (serializeError x e)) (res sb))))"
proof -
  let ?s2 = "sb\<lparr>res := put ''error'' (Obj (serializeError x e)) (res sb)\<rparr>"
  from run_actions_quiet [OF quiet before]
  have q: "hsb = hs1" "pb = Pending" "log sb = log s1 @ [Invoked d (Middleware f)]" by simp_all
  have sg: "run_actions x [sig] (sb, hs1, Pending) = (?s2, hs1, Resolved (e, True))"
    and te: "truthy e"
    using error_signal_run [OF sig, of x hs1] by simp_all
  obtain s2 hs2 p2 where T: "run_actions x (sig # after) (sb, hs1, Pending) = (s2, hs2, p2)"
    by (metis prod_cases3)
  have rest: "(s2, hs2, p2) = (?s2, hs1, Resolved (e, True))
      \<or> (s2, hs2, p2) = run_actions x after (?s2, hs1, Resolved (e, True))"
    using sg T by (cases sig) (simp_all del: end_cb.simps next_cb.simps)
  have p2: "p2 = Resolved (e, True)"
  proof -
    have "snd (snd (run_actions x after (?s2, hs1, Resolved (e, True)))) = Resolved (e, True)"
      using run_actions_promise [of "(?s2, hs1, Resolved (e, True))" x after] by simp
    with rest show ?thesis by (auto simp: prod_eq_iff)
  qed
  have l2: "log s2 = log s1 @ [Invoked d (Middleware f)]"
  proof -
    have "log (fst (run_actions x after (?s2, hs1, Resolved (e, True)))) = log sb"
      using run_actions_log [of x after "(?s2, hs1, Resolved (e, True))"] by simp
    with rest q(3) show ?thesis by (auto simp: prod_eq_iff)
  qed
  have turn: "runMiddleware x d (Middleware f) s1 hs1 = (s2, hs2, Resolved (e, True))"
    using script run_actions_append [OF quiet, of x "sig # after"] before q T p2
    by simp
  have full: "run_stack x d (pre @ Middleware f # post') s hs r = (s2, hs2, Resolved (e, True))" for post'
    using run_stack_append_continue [OF pre, of "Middleware f # post'"] turn by simp
  have same: "run_stack x d (pre @ Middleware f # post) s hs r = run_stack x d (pre @ [Middleware f]) s hs r"
    using full [of post] full [of "[]"] by simp
  have hand: "handle_internal x (pre @ Middleware f # post) rq = handle_internal x (pre @ [Middleware f]) rq"
    if "s = initial rq" "d = 0" "hs = []" "r = (Null, False)"
    using same that by (simp add: handle_internal_def processRequest_def runAllMiddleware_def)
  have calls: "middleware_calls (events (handle_internal x (pre @ Middleware f # post) rq)) =
            middleware_calls (log s1) @ [Middleware f]"
    if "wellformed rq" "s = initial rq" "d = 0" "hs = []" "r = (Null, False)"
  proof -
    have "runAllMiddleware x 0 (pre @ Middleware f # post) (initial rq) = (s2, Resolved (e, True, rev hs2))"
      using full [of post] that(2-5) by (simp add: runAllMiddleware_def)
    from invoked_processRequest [OF this] events_processRequest [OF that(1)] l2 that(3)
    show ?thesis by simp
  qed
  have last: "s2 = ?s2 \<and> hs2 = hs1" if "after = []"
    using T sg that by simp
  have final: "callback (handle_internal x (pre @ Middleware f # post) rq) =
            Some (e, del ''result'' (put ''error'' (Obj (serializeError x e)) (res sb)))"
    if "after = []" "wellformed rq" "s = initial rq" "d = 0" "hs = []" "r = (Null, False)" "hs1 = []"
    using wellformed_checks [OF that(2)] full [of post] last [OF that(1)] that(3-7) te
    by (simp add: handle_internal_def processRequest_def runAllMiddleware_def
        checkForCompletion_def Let_def)
  have 1: "\<exists>s2 hs2. run_stack x d (pre @ Middleware f # post) s hs r = (s2, hs2, Resolved (e, True))
            \<and> log s2 = log s1 @ [Invoked d (Middleware f)]"
    using full [of post] l2 by blast
  have 4: "run_stack x d (pre @ Middleware f # post) s hs r = (?s2, hs1, Resolved (e, True))
          \<and> get ''error'' (res (fst (run_stack x d (pre @ Middleware f # post) s hs r))) =
              Obj (serializeError x e)" if "after = []"
    using full [of post] last [OF that] by simp
  show ?thesis using 1 same hand calls 4 final by blast
qed

theorem error_turn_halts_stack_witness:
  "wellformed sample_request
   \<and> run_stack sample_ext 0 [passing] (initial sample_request) [] (Null, False) =
     (after_passing, [], Resolved (Null, False))
   \<and> \<not> is_signal (ResWrite ''result'' (Num 1))
   \<and> run_actions sample_ext [ResWrite ''result'' (Num 1)]
        (after_passing\<lparr>log := log after_passing @ [Invoked 0 failing]\<rparr>, [], Pending) =
       (after_passing\<lparr>res := [(''id'', Num 7), (''jsonrpc'', Str ''2.0''), (''result'', Num 1)],
                       log := [Invoked 0 passing, Invoked 0 failing]\<rparr>, [], Pending)
   \<and> error_signal
        (after_passing\<lparr>res := [(''id'', Num 7), (''jsonrpc'', Str ''2.0''), (''result'', Num 1)],
                       log := [Invoked 0 passing, Invoked 0 failing]\<rparr>)
        (End (Str ''boom'')) = Some (Str ''boom'')
   \<and> handle_internal sample_ext ([passing] @ failing # [fixed_result (Num 9)]) sample_request =
       \<lparr>caller_after = sample_request,
        events = [Invoked 0 passing, Invoked 0 failing],
        callback = Some (Str ''boom'', [(''id'', Num 7), (''jsonrpc'', Str ''2.0''),
          (''error'', Obj [(''code'', Num (- 32603)), (''data'', Str ''boom'')])])\<rparr>
   \<and> middleware_calls (events (handle_internal sample_ext
        ([passing] @ failing # [fixed_result (Num 9)]) sample_request)) = [passing, failing]"
  using error_turn_halts_stack [of sample_ext 0 "[passing]" "initial sample_request" "[]"
      "(Null, False)" after_passing "[]" Null
      "\<lambda>rq rs. [ResWrite ''result'' (Num 1), End (Str ''boom'')]"
      "[ResWrite ''result'' (Num 1)]" "End (Str ''boom'')" "[]"
      "after_passing\<lparr>res := [(''id'', Num 7), (''jsonrpc'', Str ''2.0''), (''result'', Num 1)],
                       log := [Invoked 0 passing, Invoked 0 failing]\<rparr>"
      "[]" Pending "Str ''boom''" "[fixed_result (Num 9)]" sample_request]
  by (simp add: sample_defs engine_defs wellformed_def)



text \<open>
  The claim says so for every turn that throws or ends with an error. A middleware that
  calls \<^verbatim>\<open>next()\<close> and then throws has resolved its turn with the first signal: the
  next middleware is called, and the response's error ends up as the serialized form of
  the serialized error. A middleware that throws the falsy \<^verbatim>\<open>0\<close> ends the request
  without any error. A return handler registered earlier, or the rest of the turn, can
  overwrite the error, so that the response's error is not the serialized error.
\<close>

theorem error_turn_counterexample:
  "handle_internal sample_ext [late_thrower, fixed_result (Num 9)] sample_request =
     \<lparr>caller_after = sample_request,
      events = [Invoked 0 late_thrower, Invoked 0 (fixed_result (Num 9))],
      callback = Some (Obj [(''code'', Num (- 32603)), (''data'', Str ''late'')],
        [(''id'', Num 7), (''jsonrpc'', Str ''2.0''),
         (''error'', Obj [(''code'', Num (- 32603)),
            (''data'', Obj [(''code'', Num (- 32603)), (''data'', Str ''late'')])])])\<rparr>
   \<and> serializeError sample_ext (Str ''late'') = [(''code'', Num (- 32603)), (''data'', Str ''late'')]
   \<and> handle_internal sample_ext [zero_thrower] sample_request =
     \<lparr>caller_after = sample_request,
      events = [Invoked 0 zero_thrower],
      callback = Some (Null, [(''id'', Num 7), (''jsonrpc'', Str ''2.0''), (''result'', Num 1)])\<rparr>
   \<and> callback (handle_internal sample_ext [registering overwriting, failing] sample_request) =
       Some (Str ''boom'', [(''id'', Num 7), (''jsonrpc'', Str ''2.0''), (''error'', Str ''other'')])
   \<and> callback (handle_internal sample_ext [blurring] sample_request) =
       Some (Str ''boom'', [(''id'', Num 7), (''jsonrpc'', Str ''2.0''), (''error'', Str ''other'')])"
  by (simp add: sample_defs engine_defs)


section \<open>Protocol violations\<close>

lemma spares_error_quiet: "spares_error a \<Longrightarrow> \<not> is_signal a"
  by (cases a) auto

lemma spares_error_run:
  "\<forall>a \<in> set ws. spares_error a \<Longrightarrow> \<not> truthy (get ''error'' (res (fst t))) \<Longrightarrow>
     \<not> truthy (get ''error'' (res (fst (run_actions x ws t))))"
  by (induction x ws t rule: run_actions.induct) auto

lemma forwards_run:
  "forwards sig \<Longrightarrow> \<not> truthy (get ''error'' (res s)) \<Longrightarrow>
     \<exists>hs'. run_actions x [sig] (s, hs, Pending) = (s, hs', Resolved (Null, False))"
  by (cases sig) (auto simp: Let_def)

lemma passes_runMiddleware:
  "only_passes m \<Longrightarrow> \<not> truthy (get ''error'' (res s)) \<Longrightarrow>
     \<exists>s' hs'. runMiddleware x d m s hs = (s', hs', Resolved (Null, False))
        \<and> \<not> truthy (get ''error'' (res s'))"
  and passes_run_stack:
  "\<forall>m \<in> set ms. only_passes m \<Longrightarrow> \<not> truthy (get ''error'' (res s)) \<Longrightarrow>
     \<exists>s' hs'. run_stack x d ms s hs (Null, False) = (s', hs', Resolved (Null, False))
        \<and> \<not> truthy (get ''error'' (res s'))"
proof (induction x d m s hs and x d ms s hs "(Null, False)" rule: runMiddleware_run_stack.induct)
  case (1 x d f s hs)
  let ?s0 = "s\<lparr>log := log s @ [Invoked d (Middleware f)]\<rparr>"
  define ws where "ws = butlast (f (req s) (res s))"
  define sig where "sig = last (f (req s) (res s))"
  from "1.prems"(1) have sc: "f (req s) (res s) = ws @ [sig]"
    "\<forall>a \<in> set ws. spares_error a" "forwards sig"
    by (simp_all add: ws_def sig_def)
  have quiet: "\<forall>a \<in> set ws. \<not> is_signal a" using sc(2) spares_error_quiet by blast
  obtain s1 hs1 p1 where W: "run_actions x ws (?s0, hs, Pending) = (s1, hs1, p1)"
    by (metis prod_cases3)
  from run_actions_quiet [OF quiet W] have w: "hs1 = hs" "p1 = Pending" by simp_all
  have ne: "\<not> truthy (get ''error'' (res s1))"
    using spares_error_run [OF sc(2), of "(?s0, hs, Pending)" x] W "1.prems"(2) by simp
  have "runMiddleware x d (Middleware f) s hs = run_actions x [sig] (s1, hs, Pending)"
    using sc(1) run_actions_append [OF quiet, of x "[sig]" "(?s0, hs, Pending)"] W w by simp
  with forwards_run [OF sc(3) ne, of x hs] ne show ?case by auto
next
  case (2 x d stack s hs)
  let ?s0 = "s\<lparr>log := log s @ [Invoked d (AsMiddleware stack)]\<rparr>"
  from "2.hyps" "2.prems" obtain s1 ihs where
    R: "run_stack x (Suc d) stack ?s0 [] (Null, False) = (s1, ihs, Resolved (Null, False))"
    and ne: "\<not> truthy (get ''error'' (res s1))"
    by auto
  show ?case using R ne by (simp add: Let_def)
next
  case (3 x d s hs)
  then show ?case by simp
next
  case (4 x d m ms s hs)
  from "4.hyps"(1) "4.prems" obtain s' hs' where
    M: "runMiddleware x d m s hs = (s', hs', Resolved (Null, False))"
    and ne: "\<not> truthy (get ''error'' (res s'))"
    by auto
  from "4.hyps"(2) [OF M [symmetric] refl refl refl] "4.prems"(1) ne
  obtain s2 hs2 where "run_stack x d ms s' hs' (Null, False) = (s2, hs2, Resolved (Null, False))"
    "\<not> truthy (get ''error'' (res s2))"
    by auto
  with M show ?case by simp
qed


lemma get_absent: "\<not> has k ob \<Longrightarrow> get k ob = Undefined"
  by (simp add: has_def get_def)

lemma del_absent: "\<not> has k ob \<Longrightarrow> del k ob = ob"
  by (simp add: has_def del_def map_of_eq_None_iff)

text \<open>
  Claim C5, as far as it holds, for a well-formed request. Let the middleware before
  \<open>Middleware f\<close> in the engine's own stack all have called \<^verbatim>\<open>next\<close>, and let the turn of
  \<open>Middleware f\<close> be some property writes followed, as its only signal and last action,
  by \<^verbatim>\<open>end\<close> with a falsy argument, given while the response has neither a result nor an
  error. Then the engine calls back with the protocol violation
  \<^verbatim>\<open>Response has no error or result for request\<close>, calls no later middleware and no
  return handler, and the response carries the serialized violation as its error and no
  result. Likewise, when
  the loop over the stack ends with every middleware having called \<^verbatim>\<open>next\<close>, the engine
  calls back with a protocol violation (\<^verbatim>\<open>Nothing ended request\<close>, or the one above when
  the response has neither result nor error), runs no return handler, and the response
  has no result and carries an error. This is the case for every stack of middleware that
  only pass the request on.
\<close>

theorem incomplete_response_is_protocol_violation:
  assumes wf: "wellformed r"
  shows "(run_stack x 0 pre (initial r) [] (Null, False) = (s1, hs1, Resolved (e1, False))
          \<and> f (req s1) (res s1) = before @ [End err]
          \<and> (\<forall>a \<in> set before. \<not> is_signal a)
          \<and> run_actions x before (s1\<lparr>log := log s1 @ [Invoked 0 (Middleware f)]\<rparr>, hs1, Pending) = (sb, hsb, pb)
          \<and> \<not> truthy err \<and> \<not> has ''result'' (res sb) \<and> \<not> has ''error'' (res sb)
        \<longrightarrow> handle_internal x (pre @ Middleware f # post) r =
              \<lparr>caller_after = r, events = log s1 @ [Invoked 0 (Middleware f)],
               callback = Some (no_result_or_error x,
                 put ''error'' (Obj (serializeError x (no_result_or_error x))) (res sb))\<rparr>)
     \<and> (run_stack x 0 stack (initial r) [] (Null, False) = (s2, hs2, Resolved (e2, False))
        \<longrightarrow> handle_internal x stack r =
              \<lparr>caller_after = r, events = log s2,
               callback = Some (violation x (res s2),
                 (if truthy (get ''error'' (res s2)) then del ''result'' (res s2)
                  else put ''error'' (Obj (serializeError x (violation x (res s2))))
                         (del ''result'' (res s2))))\<rparr>)
     \<and> ((\<forall>m \<in> set stack. only_passes m)
        \<longrightarrow> (\<exists>s3 hs3. run_stack x 0 stack (initial r) [] (Null, False) = (s3, hs3, Resolved (Null, False))
              \<and> events (handle_internal x stack r) = log s3
              \<and> callback (handle_internal x stack r) =
                  Some (violation x (res s3),
                    put ''error'' (Obj (serializeError x (violation x (res s3)))) (del ''result'' (res s3)))))"
proof -
  have B: "handle_internal x stk r =
              \<lparr>caller_after = r, events = log t2,
               callback = Some (violation x (res t2),
                 (if truthy (get ''error'' (res t2)) then del ''result'' (res t2)
                  else put ''error'' (Obj (serializeError x (violation x (res t2))))
                         (del ''result'' (res t2))))\<rparr>"
    if R: "run_stack x 0 stk (initial r) [] (Null, False) = (t2, g2, Resolved (d2, False))"
    for stk t2 g2 d2
  proof -
    have A: "runAllMiddleware x 0 stk (initial r) = (t2, Resolved (d2, False, rev g2))"
      using R by (simp add: runAllMiddleware_def)
    have c: "caller t2 = r"
      using caller_runAllMiddlewareD [OF A] by (simp add: initial_def)
    have P: "processRequest x stk (initial r) = (t2, Rejected (violation x (res t2)))"
      using A by (simp add: processRequest_def checkForCompletion_def violation_def
          no_result_or_error_def nothing_ended_def)
    have tv: "truthy (violation x (res t2))"
      by (simp add: violation_def no_result_or_error_def nothing_ended_def)
    show ?thesis
      using wellformed_checks [OF wf] P c tv by (simp add: handle_internal_def Let_def)
  qed
  have A: "handle_internal x (pre @ Middleware f # post) r =
              \<lparr>caller_after = r, events = log s1 @ [Invoked 0 (Middleware f)],
               callback = Some (no_result_or_error x,
                 put ''error'' (Obj (serializeError x (no_result_or_error x))) (res sb))\<rparr>"
    if pre: "run_stack x 0 pre (initial r) [] (Null, False) = (s1, hs1, Resolved (e1, False))"
      and script: "f (req s1) (res s1) = before @ [End err]"
      and quiet: "\<forall>a \<in> set before. \<not> is_signal a"
      and before: "run_actions x before (s1\<lparr>log := log s1 @ [Invoked 0 (Middleware f)]\<rparr>, hs1, Pending) = (sb, hsb, pb)"
      and noerr: "\<not> truthy err" and empty: "\<not> has ''result'' (res sb)" "\<not> has ''error'' (res sb)"
  proof -
    let ?stack = "pre @ Middleware f # post"
    from run_actions_quiet [OF quiet before]
    have q: "hsb = hs1" "pb = Pending" "log sb = log s1 @ [Invoked 0 (Middleware f)]" by simp_all
    have ge: "get ''error'' (res sb) = Undefined" using empty(2) by (rule get_absent)
    have en: "end_cb x err (sb, hs1, Pending) = (sb, hs1, Resolved (Undefined, True))"
      using noerr ge by (simp add: Let_def)
    have turn: "runMiddleware x 0 (Middleware f) s1 hs1 = (sb, hs1, Resolved (Undefined, True))"
      using script run_actions_append [OF quiet, of x "[End err]"] before q en
      by (simp del: end_cb.simps)
    have full: "run_stack x 0 ?stack (initial r) [] (Null, False) = (sb, hs1, Resolved (Undefined, True))"
      using run_stack_append_continue [OF pre, of "Middleware f # post"] turn by simp
    have R: "runAllMiddleware x 0 ?stack (initial r) = (sb, Resolved (Undefined, True, rev hs1))"
      using full by (simp add: runAllMiddleware_def)
    have c: "caller sb = r"
      using caller_runAllMiddlewareD [OF R] by (simp add: initial_def)
    have P: "processRequest x ?stack (initial r) = (sb, Rejected (no_result_or_error x))"
      using R empty by (simp add: processRequest_def checkForCompletion_def no_result_or_error_def)
    show ?thesis
      using wellformed_checks [OF wf] P c q(3) ge del_absent [OF empty(1)]
      by (simp add: handle_internal_def Let_def no_result_or_error_def)
  qed
  have C: "\<exists>s3 hs3. run_stack x 0 stack (initial r) [] (Null, False) = (s3, hs3, Resolved (Null, False))
              \<and> events (handle_internal x stack r) = log s3
              \<and> callback (handle_internal x stack r) =
                  Some (violation x (res s3),
                    put ''error'' (Obj (serializeError x (violation x (res s3)))) (del ''result'' (res s3)))"
    if "\<forall>m \<in> set stack. only_passes m"
  proof -
    have "\<not> truthy (get ''error'' (res (initial r)))" by (simp add: initial_def)
    from passes_run_stack [OF that this, of x 0 "[]"] obtain s3 hs3 where
      R: "run_stack x 0 stack (initial r) [] (Null, False) = (s3, hs3, Resolved (Null, False))"
      and ne: "\<not> truthy (get ''error'' (res s3))" by blast
    from B [OF R] ne R show ?thesis by simp
  qed
  show ?thesis using A B [of stack s2 hs2 e2] C by blast
qed

theorem incomplete_response_is_protocol_violation_witness:
  "wellformed sample_request
   \<and> run_stack sample_ext 0 [passing] (initial sample_request) [] (Null, False) =
       (after_passing, [], Resolved (Null, False))
   \<and> run_actions sample_ext []
        (after_passing\<lparr>log := log after_passing @ [Invoked 0 ending]\<rparr>, [], Pending) =
       (after_passing\<lparr>log := [Invoked 0 passing, Invoked 0 ending]\<rparr>, [], Pending)
   \<and> \<not> truthy Undefined
   \<and> \<not> has ''result'' (res after_passing)
   \<and> \<not> has ''error'' (res after_passing)
   \<and> handle_internal sample_ext ([passing] @ ending # [fixed_result (Num 9)]) sample_request =
       \<lparr>caller_after = sample_request,
        events = [Invoked 0 passing, Invoked 0 ending],
        callback = Some (Obj [(''message'', Str ''Response has no error or result for request'')],
          [(''id'', Num 7), (''jsonrpc'', Str ''2.0''),
           (''error'', Obj [(''code'', Num (- 32603)),
              (''data'', Obj [(''message'', Str ''Response has no error or result for request'')])])])\<rparr>
   \<and> only_passes passing_zero
   \<and> handle_internal sample_ext [passing_zero] sample_request =
       \<lparr>caller_after = sample_request,
        events = [Invoked 0 passing_zero],
        callback = Some (Obj [(''message'', Str ''Nothing ended request'')],
          [(''id'', Num 7), (''jsonrpc'', Str ''2.0''),
           (''error'', Obj [(''code'', Num (- 32603)),
              (''data'', Obj [(''message'', Str ''Nothing ended request'')])])])\<rparr>"
  using incomplete_response_is_protocol_violation [of sample_request sample_ext "[passing]"
      after_passing "[]" Null "\<lambda>rq rs. [End Undefined]" "[]" Undefined
      "after_passing\<lparr>log := [Invoked 0 passing, Invoked 0 ending]\<rparr>" "[]" Pending
      "[fixed_result (Num 9)]" "[passing_zero]"
      "\<lparr>caller = sample_request,
         req = [(''id'', Num 7), (''jsonrpc'', Str ''2.0''), (''method'', Str ''ping'')],
         res = [(''id'', Num 7), (''jsonrpc'', Str ''2.0''), (''result'', Num 1)],
         log = [Invoked 0 passing_zero], written = untouched\<rparr>" "[]" Null]
  by (simp add: sample_defs engine_defs wellformed_def no_result_or_error_def nothing_ended_def
      violation_def)

text \<open>
  The claim says so for any middleware that calls \<^verbatim>\<open>end()\<close> on an empty response. In an
  engine used as middleware through \<^verbatim>\<open>asMiddleware\<close>, the completion check is not made:
  the inner engine's return handlers run, and one of them can still set the result, so
  that the outer engine's check passes. And a middleware of the stack itself can set the
  result after it has called \<^verbatim>\<open>end()\<close>. Both dispatches succeed.
\<close>

theorem end_on_empty_response_counterexample:
  "handle_internal sample_ext [AsMiddleware [registering filling, ending]] sample_request =
     \<lparr>caller_after = sample_request,
      events = [Invoked 0 (AsMiddleware [registering filling, ending]),
                Invoked 1 (registering filling), Invoked 1 ending, Ran 1 filling],
      callback = Some (Null, [(''id'', Num 7), (''jsonrpc'', Str ''2.0''), (''result'', Num 1)])\<rparr>
   \<and> res (fst (run_stack sample_ext 1 [registering filling]
          (initial sample_request) [] (Null, False))) = [(''id'', Num 7), (''jsonrpc'', Str ''2.0'')]
   \<and> handle_internal sample_ext [late_result] sample_request =
     \<lparr>caller_after = sample_request,
      events = [Invoked 0 late_result],
      callback = Some (Null, [(''id'', Num 7), (''jsonrpc'', Str ''2.0''), (''result'', Num 1)])\<rparr>"
  by (simp add: sample_defs engine_defs)


section \<open>Return handlers\<close>

lemma handler_calls_append [simp]:
  "handler_calls d (xs @ ys) = handler_calls d xs @ handler_calls d ys"
  by (induction d xs rule: handler_calls.induct) auto

lemma handler_calls_deeper:
  "\<forall>ev \<in> set evs. d < event_depth ev \<Longrightarrow> handler_calls d evs = []"
  by (induction d evs rule: handler_calls.induct) auto

lemma log_runHandler:
  "\<exists>new. log (fst (runHandler d h s)) = log s @ new \<and> (\<forall>ev \<in> set new. d \<le> event_depth ev)
      \<and> handler_calls d new = (if is_function h then [h] else [])"
  and log_runReturnHandlers:
  "\<exists>new k. log (fst (runReturnHandlers d hs s)) = log s @ new \<and> (\<forall>ev \<in> set new. d \<le> event_depth ev)
      \<and> k \<le> length hs \<and> handler_calls d new = take k hs
      \<and> (snd (runReturnHandlers d hs s) = Resolved () \<longrightarrow> k = length hs)"
proof (induction d h s and d hs s rule: runHandler_runReturnHandlers.induct)
  case (1 d v s)
  then show ?case by simp
next
  case (2 d f s)
  then show ?case by (simp add: log_run_hactions)
next
  case (3 d hs s)
  let ?s0 = "s\<lparr>log := log s @ [Ran d (Forward hs)]\<rparr>"
  from 3 obtain new where new: "log (fst (runReturnHandlers (Suc d) hs ?s0)) = log ?s0 @ new"
    "\<forall>ev \<in> set new. Suc d \<le> event_depth ev"
    by blast
  have deeper: "handler_calls d new = []"
    using new(2) by (intro handler_calls_deeper) auto
  have "log (fst (runHandler d (Forward hs) s)) = log s @ (Ran d (Forward hs) # new)"
    using new(1) by (auto split: prod.splits promise.splits)
  moreover have "\<forall>ev \<in> set (Ran d (Forward hs) # new). d \<le> event_depth ev"
    using new(2) by auto
  moreover have "handler_calls d (Ran d (Forward hs) # new) = [Forward hs]"
    using deeper by simp
  ultimately show ?case
    by (intro exI [of _ "Ran d (Forward hs) # new"]) simp
next
  case (4 d s)
  then show ?case by simp
next
  case (5 d h hs s)
  obtain s' p where H: "runHandler d h s = (s', p)" by (metis surj_pair)
  from "5.IH"(1) H obtain new1 where new1: "log s' = log s @ new1"
    "\<forall>ev \<in> set new1. d \<le> event_depth ev"
    "handler_calls d new1 = (if is_function h then [h] else [])"
    by auto
  show ?case
  proof (cases p)
    case (Resolved u)
    have fn: "is_function h"
      using H Resolved by (cases h) auto
    from "5.IH"(2) [OF H [symmetric] Resolved] obtain new2 k where new2:
      "log (fst (runReturnHandlers d hs s')) = log s' @ new2"
      "\<forall>ev \<in> set new2. d \<le> event_depth ev" "k \<le> length hs"
      "handler_calls d new2 = take k hs"
      "snd (runReturnHandlers d hs s') = Resolved () \<longrightarrow> k = length hs"
      by blast
    have "log (fst (runReturnHandlers d (h # hs) s)) = log s @ (new1 @ new2)"
      using H Resolved new1(1) new2(1) by simp
    moreover have "\<forall>ev \<in> set (new1 @ new2). d \<le> event_depth ev"
      using new1(2) new2(2) by auto
    moreover have "handler_calls d (new1 @ new2) = take (Suc k) (h # hs)"
      using new1(3) new2(4) fn by simp
    moreover have "Suc k \<le> length (h # hs)" using new2(3) by simp
    moreover have "snd (runReturnHandlers d (h # hs) s) = Resolved () \<longrightarrow> Suc k = length (h # hs)"
      using H Resolved new2(5) by simp
    ultimately show ?thesis by blast
  next
    case (Rejected e)
    have "log (fst (runReturnHandlers d (h # hs) s)) = log s @ new1"
      using H Rejected new1(1) by simp
    moreover have "handler_calls d new1 = take (if is_function h then 1 else 0) (h # hs)"
      using new1(3) by simp
    moreover have "(if is_function h then 1 else 0) \<le> length (h # hs)" by simp
    moreover have "snd (runReturnHandlers d (h # hs) s) \<noteq> Resolved ()"
      using H Rejected by simp
    ultimately show ?thesis using new1(2) by blast
  next
    case Pending
    have "log (fst (runReturnHandlers d (h # hs) s)) = log s @ new1"
      using H Pending new1(1) by simp
    moreover have "handler_calls d new1 = take (if is_function h then 1 else 0) (h # hs)"
      using new1(3) by simp
    moreover have "(if is_function h then 1 else 0) \<le> length (h # hs)" by simp
    moreover have "snd (runReturnHandlers d (h # hs) s) \<noteq> Resolved ()"
      using H Pending by simp
    ultimately show ?thesis using new1(2) by blast
  qed
qed


lemma next_cb_grows: "\<exists>new. fst (snd (next_cb x h t)) = fst (snd t) @ new"
  by (cases t) (auto simp: Let_def split: prod.splits if_splits)

lemma run_actions_grows: "\<exists>new. fst (snd (run_actions x as t)) = fst (snd t) @ new"
proof (induction x as t rule: run_actions.induct)
  case (6 x h as t)
  then show ?case using next_cb_grows [of x h t] by (auto simp del: next_cb.simps)
next
  case (7 x e as t)
  then show ?case by (simp add: end_cb_handlers del: end_cb.simps)
next
  case (8 x e as t)
  then show ?case by (simp add: end_cb_handlers del: end_cb.simps)
qed auto

lemma runMiddleware_grows: "\<exists>new. fst (snd (runMiddleware x d m s hs)) = hs @ new"
  and run_stack_grows: "\<exists>new. fst (snd (run_stack x d ms s hs r)) = hs @ new"
proof (induction x d m s hs and x d ms s hs r rule: runMiddleware_run_stack.induct)
  case (1 x d f s hs)
  then show ?case
    using run_actions_grows [of x "f (req s) (res s)" "(s\<lparr>log := log s @ [Invoked d (Middleware f)]\<rparr>, hs, Pending)"]
    by simp
next
  case (2 x d stack s hs)
  show ?case
    using next_cb_grows [of x _ "(_, hs, Pending)"]
    by (auto simp: end_cb_handlers split: prod.splits promise.splits simp del: end_cb.simps next_cb.simps)
next
  case (3 x d s hs r)
  then show ?case by simp
next
  case (4 x d m ms s hs r)
  obtain s' hs' p where M: "runMiddleware x d m s hs = (s', hs', p)" by (metis prod_cases3)
  from "4.IH"(1) M obtain new1 where n1: "hs' = hs @ new1" by auto
  show ?case
  proof (cases p)
    case (Resolved ec)
    obtain e c where ec: "ec = (e, c)" by (cases ec)
    show ?thesis
    proof (cases c)
      case True
      with M Resolved ec n1 show ?thesis by simp
    next
      case False
      from "4.IH"(2) [OF M [symmetric] refl Resolved ec [symmetric] False]
      obtain new2 where "fst (snd (run_stack x d ms s' hs' (e, c))) = hs' @ new2" by blast
      with M Resolved ec False n1 show ?thesis by simp
    qed
  next
    case (Rejected e)
    with M n1 show ?thesis by simp
  next
    case Pending
    with M n1 show ?thesis by simp
  qed
qed

text \<open>
  Claim C4, as far as it holds. Let the stack have halted with the handlers \<open>pushed\<close>
  registered, in the order of registration. If the completion check throws (the response
  has neither result nor error, or nothing ended the request), no return handler is called.
  Otherwise the handlers the engine calls are, in this order, an initial part of
  \<open>rev pushed\<close>: the last-registered first, none skipped and none called twice, and all of
  them when the runner finishes without a failure; the error the stack ended with plays no
  role. The handlers registered by later middleware come later in \<open>pushed\<close>, so they are
  called earlier.
\<close>

theorem return_handlers_reverse_order:
  assumes "run_stack x 0 stack s [] (Null, False) = (s1, pushed, Resolved (e, c))"
  shows "(checkForCompletion x (req s1) (res s1) c = Some v \<longrightarrow>
            processRequest x stack s = (s1, Rejected v))
    \<and> (checkForCompletion x (req s1) (res s1) c = None \<longrightarrow>
          fst (processRequest x stack s) = fst (runReturnHandlers 0 (rev pushed) s1)
          \<and> (\<exists>new k. log (fst (processRequest x stack s)) = log s1 @ new
                \<and> k \<le> length pushed
                \<and> handler_calls 0 new = take k (rev pushed)
                \<and> (snd (runReturnHandlers 0 (rev pushed) s1) = Resolved () \<longrightarrow> k = length pushed)))
    \<and> (stack = ms1 @ ms2 \<and> run_stack x 0 ms1 s [] (Null, False) = (sa, pa, Resolved (ea, False)) \<longrightarrow>
          (\<exists>pb. pushed = pa @ pb))"
proof -
  have A: "runAllMiddleware x 0 stack s = (s1, Resolved (e, c, rev pushed))"
    using assms by (simp add: runAllMiddleware_def)
  have 1: "processRequest x stack s = (s1, Rejected v)"
    if "checkForCompletion x (req s1) (res s1) c = Some v"
    using A that by (simp add: processRequest_def)
  have 2: "fst (processRequest x stack s) = fst (runReturnHandlers 0 (rev pushed) s1)"
    if "checkForCompletion x (req s1) (res s1) c = None"
    using A that by (auto simp: processRequest_def split: prod.splits promise.splits)
  have 3: "\<exists>pb. pushed = pa @ pb"
    if "stack = ms1 @ ms2" "run_stack x 0 ms1 s [] (Null, False) = (sa, pa, Resolved (ea, False))"
    using run_stack_append_continue [OF that(2), of ms2] that(1) assms
      run_stack_grows [of x 0 ms2 sa pa "(ea, False)"]
    by auto
  from log_runReturnHandlers [of 0 "rev pushed" s1]
  obtain new k where nk: "log (fst (runReturnHandlers 0 (rev pushed) s1)) = log s1 @ new"
    "k \<le> length pushed" "handler_calls 0 new = take k (rev pushed)"
    "snd (runReturnHandlers 0 (rev pushed) s1) = Resolved () \<longrightarrow> k = length pushed"
    by auto
  show ?thesis using 1 2 3 nk by metis
qed


theorem return_handlers_reverse_order_witness:
  "run_stack sample_ext 0
      [registering (marking ''a''), registering (marking ''b''), registering (marking ''c''),
       fixed_result (Num 1)]
      (initial sample_request) [] (Null, False) =
     (\<lparr>caller = sample_request,
       req = [(''id'', Num 7), (''jsonrpc'', Str ''2.0''), (''method'', Str ''ping'')],
       res = [(''id'', Num 7), (''jsonrpc'', Str ''2.0''), (''result'', Num 1)],
       log = [Invoked 0 (registering (marking ''a'')), Invoked 0 (registering (marking ''b'')),
              Invoked 0 (registering (marking ''c'')), Invoked 0 (fixed_result (Num 1))],
       written = untouched\<rparr>,
      [marking ''a'', marking ''b'', marking ''c''], Resolved (Undefined, True))
   \<and> checkForCompletion sample_ext
        [(''id'', Num 7), (''jsonrpc'', Str ''2.0''), (''method'', Str ''ping'')]
        [(''id'', Num 7), (''jsonrpc'', Str ''2.0''), (''result'', Num 1)] True = None
   \<and> handler_calls 0 (events (handle_internal sample_ext
        [registering (marking ''a''), registering (marking ''b''), registering (marking ''c''),
         fixed_result (Num 1)] sample_request)) =
       [marking ''c'', marking ''b'', marking ''a'']
   \<and> callback (handle_internal sample_ext
        [registering (marking ''a''), registering (marking ''b''), registering (marking ''c''),
         fixed_result (Num 1)] sample_request) =
       Some (Null, [(''id'', Num 7), (''jsonrpc'', Str ''2.0''), (''result'', Num 1),
                    (''c'', Bool True), (''b'', Bool True), (''a'', Bool True)])"
  using return_handlers_reverse_order [of sample_ext
      "[registering (marking ''a''), registering (marking ''b''), registering (marking ''c''),
        fixed_result (Num 1)]"
      "initial sample_request"
      "\<lparr>caller = sample_request,
       req = [(''id'', Num 7), (''jsonrpc'', Str ''2.0''), (''method'', Str ''ping'')],
       res = [(''id'', Num 7), (''jsonrpc'', Str ''2.0''), (''result'', Num 1)],
       log = [Invoked 0 (registering (marking ''a'')), Invoked 0 (registering (marking ''b'')),
              Invoked 0 (registering (marking ''c'')), Invoked 0 (fixed_result (Num 1))],
       written = untouched\<rparr>"
      "[marking ''a'', marking ''b'', marking ''c'']" Undefined True]
  by (simp add: sample_defs engine_defs)

text \<open>
  The claim says the collected handlers run in every dispatch in which the stack halts. In
  the scenario of the specification, three middleware that each register a handler with
  \<^verbatim>\<open>next\<close> and no middleware that ends the request, the stack halts with three handlers
  collected, the completion check throws before \<^verbatim>\<open>_runReturnHandlers\<close> is reached, and
  none of them is called.
\<close>

theorem return_handlers_skipped_counterexample:
  "fst (snd (run_stack sample_ext 0
      [registering (marking ''a''), registering (marking ''b''), registering (marking ''c'')]
      (initial sample_request) [] (Null, False))) =
     [marking ''a'', marking ''b'', marking ''c'']
   \<and> handler_calls 0 (events (handle_internal sample_ext
        [registering (marking ''a''), registering (marking ''b''), registering (marking ''c'')]
        sample_request)) = []
   \<and> callback (handle_internal sample_ext
        [registering (marking ''a''), registering (marking ''b''), registering (marking ''c'')]
        sample_request) =
       Some (Obj [(''message'', Str ''Response has no error or result for request'')],
         [(''id'', Num 7), (''jsonrpc'', Str ''2.0''),
          (''error'', Obj [(''code'', Num (- 32603)),
             (''data'', Obj [(''message'', Str ''Response has no error or result for request'')])])])"
  by (simp add: sample_defs engine_defs)

section \<open>Return handlers that are not functions\<close>

lemma end_cb_keeps: "p \<noteq> Pending \<Longrightarrow> end_cb x e (s, hs, p) = (s', hs', p') \<Longrightarrow> p' = p \<and> hs' = hs"
  by (auto simp: Let_def)

lemma next_cb_keeps:
  "p \<noteq> Pending \<Longrightarrow> \<not> is_function h \<Longrightarrow> next_cb x h (s, hs, p) = (s', hs', p') \<Longrightarrow>
     p' = p \<and> (\<exists>nfs. hs' = hs @ nfs \<and> (\<forall>h \<in> set nfs. \<not> is_function h))"
  by (auto simp: Let_def split: if_splits)

lemma run_actions_tail:
  "p \<noteq> Pending \<Longrightarrow> \<forall>h. Next h \<in> set as \<longrightarrow> \<not> is_function h \<Longrightarrow>
   run_actions x as (s, hs, p) = (s', hs', p') \<Longrightarrow>
     p' = p \<and> (\<exists>nfs. hs' = hs @ nfs \<and> (\<forall>h \<in> set nfs. \<not> is_function h))"
proof (induction x as "(s, hs, p)" arbitrary: s hs rule: run_actions.induct)
  case (6 x h as)
  obtain sa ha pa where N: "next_cb x h (s, hs, p) = (sa, ha, pa)" by (metis prod_cases3)
  from 6(3) have nf: "\<not> is_function h" by simp
  from next_cb_keeps [OF 6(2) nf N] obtain nfs1 where
    k: "pa = p" "ha = hs @ nfs1" "\<forall>h \<in> set nfs1. \<not> is_function h" by blast
  have "p' = p \<and> (\<exists>nfs. hs' = ha @ nfs \<and> (\<forall>h \<in> set nfs. \<not> is_function h))"
    using 6(1) [of sa ha] N k(1) 6(2,3,4) by (simp del: next_cb.simps)
  with k show ?case by auto
next
  case (7 x e as)
  obtain sa ha pa where N: "end_cb x e (s, hs, p) = (sa, ha, pa)" by (metis prod_cases3)
  from end_cb_keeps [OF 7(2) N] have k: "pa = p" "ha = hs" by simp_all
  show ?case
    using 7(1) [of sa ha] N k 7(2,3,4) by (simp del: end_cb.simps)
next
  case (8 x e as)
  then show ?case using end_cb_keeps [of p x e s hs s' hs' p'] by (auto simp del: end_cb.simps)
qed auto

lemma runReturnHandlers_not_function:
  "\<not> is_function h \<Longrightarrow> runReturnHandlers d (h # hs) s = (s, Rejected notAFunction)"
  by (cases h) auto

lemma rev_handlers_head:
  assumes "\<forall>h \<in> set nfs. \<not> is_function h"
  shows "\<exists>h t. rev (hs @ NotFn v # nfs) = h # t \<and> \<not> is_function h"
proof (cases nfs rule: rev_cases)
  case Nil
  then show ?thesis by simp
next
  case (snoc ys y)
  with assms show ?thesis by simp
qed

text \<open>
  Claim C8, as far as it holds. Let the middleware before \<open>Middleware f\<close> all have called
  \<^verbatim>\<open>next\<close>, and let the turn of \<open>Middleware f\<close> be property writes, then, as its first
  signal and with no truthy error on the response, \<^verbatim>\<open>next(v)\<close> for a truthy value \<open>v\<close>
  that is not a function, then anything at all except handing a further function to
  \<^verbatim>\<open>next\<close>. Then the dispatch of a well-formed request calls back with a truthy error and a
  response that carries a truthy error and no result, whatever the middleware does
  afterwards and whatever middleware follow. When the turn ends with that call, the
  response's error is the serialized engine error about return handlers, and no return
  handler is called.
\<close>

theorem non_function_return_handler_ends_request:
  assumes wf: "wellformed r"
    and pre: "run_stack x 0 pre (initial r) [] (Null, False) = (s1, hs1, Resolved (e1, False))"
    and script: "f (req s1) (res s1) = before @ Next (NotFn v) # after"
    and quiet: "\<forall>a \<in> set before. \<not> is_signal a"
    and before: "run_actions x before (s1\<lparr>log := log s1 @ [Invoked 0 (Middleware f)]\<rparr>, hs1, Pending) = (sb, hsb, pb)"
    and noerr: "\<not> truthy (get ''error'' (res sb))"
    and v: "truthy v"
    and after: "\<forall>h. Next h \<in> set after \<longrightarrow> \<not> is_function h"
  shows "(\<exists>err rs. callback (handle_internal x (pre @ Middleware f # post) r) = Some (err, rs)
            \<and> truthy err \<and> has ''error'' rs \<and> truthy (get ''error'' rs) \<and> \<not> has ''result'' rs)
     \<and> (after = [] \<longrightarrow>
          handle_internal x (pre @ Middleware f # post) r =
            \<lparr>caller_after = r, events = log s1 @ [Invoked 0 (Middleware f)],
             callback = Some (notAFunction,
               del ''result'' (put ''error'' (Obj (serializeError x (handlers_must_be_functions x))) (res sb)))\<rparr>)"
proof -
  let ?E = "handlers_must_be_functions x"
  let ?sn = "sb\<lparr>res := put ''error'' (Obj (serializeError x ?E)) (res sb)\<rparr>"
  let ?stack = "pre @ Middleware f # post"
  from run_actions_quiet [OF quiet before]
  have q: "hsb = hs1" "pb = Pending" "log sb = log s1 @ [Invoked 0 (Middleware f)]" by simp_all
  have nx: "next_cb x (NotFn v) (sb, hs1, Pending) = (?sn, hs1 @ [NotFn v], Resolved (?E, True))"
    using noerr v by (simp add: Let_def handlers_must_be_functions_def)
  obtain s2 hs2 p2 where T: "run_actions x after (?sn, hs1 @ [NotFn v], Resolved (?E, True)) = (s2, hs2, p2)"
    by (metis prod_cases3)
  from run_actions_tail [OF _ after T] obtain nfs where
    t: "p2 = Resolved (?E, True)" "hs2 = (hs1 @ [NotFn v]) @ nfs" "\<forall>h \<in> set nfs. \<not> is_function h"
    by auto
  have turn: "runMiddleware x 0 (Middleware f) s1 hs1 = (s2, hs1 @ NotFn v # nfs, Resolved (?E, True))"
    using script run_actions_append [OF quiet, of x "Next (NotFn v) # after"] before q nx T t
    by (simp del: next_cb.simps)
  have full: "run_stack x 0 ?stack (initial r) [] (Null, False) = (s2, hs1 @ NotFn v # nfs, Resolved (?E, True))"
    using run_stack_append_continue [OF pre, of "Middleware f # post"] turn by simp
  have A: "runAllMiddleware x 0 ?stack (initial r) = (s2, Resolved (?E, True, rev (hs1 @ NotFn v # nfs)))"
    using full by (simp add: runAllMiddleware_def)
  from rev_handlers_head [OF t(3), of hs1 v] obtain h tl where
    ht: "rev (hs1 @ NotFn v # nfs) = h # tl" "\<not> is_function h" by blast
  have H: "runReturnHandlers 0 (rev (hs1 @ NotFn v # nfs)) s2 = (s2, Rejected notAFunction)"
    using ht runReturnHandlers_not_function [of h 0 tl s2] by simp
  have P: "\<exists>err. processRequest x ?stack (initial r) = (s2, Rejected err) \<and> truthy err"
    using A H
    by (auto simp: processRequest_def checkForCompletion_def notAFunction_def split: option.splits)
  then obtain err where err: "processRequest x ?stack (initial r) = (s2, Rejected err)" "truthy err"
    by blast
  have "\<exists>rs. callback (handle_internal x ?stack r) = Some (err, rs)"
    using wellformed_checks [OF wf] err by (simp add: handle_internal_def Let_def)
  then obtain rs where cb: "callback (handle_internal x ?stack r) = Some (err, rs)" by blast
  have 1: "\<exists>err rs. callback (handle_internal x ?stack r) = Some (err, rs)
            \<and> truthy err \<and> has ''error'' rs \<and> truthy (get ''error'' rs) \<and> \<not> has ''result'' rs"
    using cb err(2) callback_error_response [OF cb err(2)] by blast
  have 2: "handle_internal x ?stack r =
            \<lparr>caller_after = r, events = log s1 @ [Invoked 0 (Middleware f)],
             callback = Some (notAFunction,
               del ''result'' (put ''error'' (Obj (serializeError x ?E)) (res sb)))\<rparr>"
    if "after = []"
  proof -
    from that T have s2: "s2 = ?sn" "nfs = []" using t(2) by simp_all
    have c: "caller s2 = r"
      using caller_runAllMiddlewareD [OF A] by (simp add: initial_def)
    have "processRequest x ?stack (initial r) = (s2, Rejected notAFunction)"
      using A H s2 by (simp add: processRequest_def checkForCompletion_def)
    then show ?thesis
      using wellformed_checks [OF wf] s2 c q
      by (simp add: handle_internal_def Let_def notAFunction_def)
  qed
  show ?thesis using 1 2 by blast
qed

theorem non_function_return_handler_ends_request_witness:
  "wellformed sample_request
   \<and> run_stack sample_ext 0 [passing] (initial sample_request) [] (Null, False) =
       (after_passing, [], Resolved (Null, False))
   \<and> \<not> is_signal (ResWrite ''result'' (Num 1))
   \<and> run_actions sample_ext [ResWrite ''result'' (Num 1)]
        (after_passing\<lparr>log := log after_passing @ [Invoked 0 sloppy]\<rparr>, [], Pending) =
       (after_passing\<lparr>res := [(''id'', Num 7), (''jsonrpc'', Str ''2.0''), (''result'', Num 1)],
                       log := [Invoked 0 passing, Invoked 0 sloppy]\<rparr>, [], Pending)
   \<and> \<not> truthy (get ''error'' [(''id'', Num 7), (''jsonrpc'', Str ''2.0''), (''result'', Num 1)])
   \<and> truthy (Num 5)
   \<and> callback (handle_internal sample_ext ([passing] @ sloppy # [fixed_result (Num 9)]) sample_request) =
       Some (notAFunction,
         [(''id'', Num 7), (''jsonrpc'', Str ''2.0''),
          (''error'', Obj [(''code'', Num (- 32603)),
             (''data'', Obj [(''code'', Num (- 32603)),
                (''data'', handlers_must_be_functions sample_ext)])])])
   \<and> truthy notAFunction"
  using non_function_return_handler_ends_request [of sample_request sample_ext "[passing]"
      after_passing "[]" Null
      "\<lambda>rq rs. [ResWrite ''result'' (Num 1), Next (NotFn (Num 5)), End Undefined]"
      "[ResWrite ''result'' (Num 1)]" "Num 5" "[End Undefined]"
      "after_passing\<lparr>res := [(''id'', Num 7), (''jsonrpc'', Str ''2.0''), (''result'', Num 1)],
                       log := [Invoked 0 passing, Invoked 0 sloppy]\<rparr>"
      "[]" Pending "[fixed_result (Num 9)]"]
  by (simp add: sample_defs engine_defs wellformed_def notAFunction_def
      handlers_must_be_functions_def)

text \<open>
  The claim says so for any value that is not a function. \<^verbatim>\<open>next\<close> tests
  \<^verbatim>\<open>if (returnHandler)\<close> first, so a falsy value such as \<^verbatim>\<open>0\<close> is ignored like a
  missing argument and the dispatch succeeds. The second dispatch shows why the turn must
  not register a further handler: one that throws a falsy value is called before the value
  that is not a function, and \<^verbatim>\<open>_handle\<close> takes the falsy error for no error.
\<close>

theorem falsy_return_handler_counterexample:
  "\<not> truthy (Num 0)
   \<and> handle_internal sample_ext [passing_zero, ending] sample_request =
       \<lparr>caller_after = sample_request,
        events = [Invoked 0 passing_zero, Invoked 0 ending],
        callback = Some (Null, [(''id'', Num 7), (''jsonrpc'', Str ''2.0''), (''result'', Num 1)])\<rparr>
   \<and> callback (handle_internal sample_ext [persistent] sample_request) =
       Some (Num 0, [(''id'', Num 7), (''jsonrpc'', Str ''2.0''), (''result'', Num 1)])"
  by (simp add: sample_defs engine_defs)

section \<open>The completion invariant\<close>

lemma hstep_refl [simp]: "hstep rs rs" by (simp add: hstep_def)
lemma hstep_trans: "hstep a b \<Longrightarrow> hstep b c \<Longrightarrow> hstep a c" by (auto simp: hstep_def)
lemma mstep_refl [simp]: "mstep rs rs" by (simp add: mstep_def)
lemma mstep_trans: "mstep a b \<Longrightarrow> mstep b c \<Longrightarrow> mstep a c" by (auto simp: mstep_def)
lemma hstep_mstep: "hstep a b \<Longrightarrow> mstep a b" by (auto simp: hstep_def mstep_def error_ok_def)

lemma hstep_put: "k \<noteq> ''id'' \<Longrightarrow> k \<noteq> ''jsonrpc'' \<Longrightarrow> k \<noteq> ''error'' \<Longrightarrow> hstep rs (put k v rs)"
  by (simp add: hstep_def)

lemma hstep_del: "k \<noteq> ''id'' \<Longrightarrow> k \<noteq> ''jsonrpc'' \<Longrightarrow> k \<noteq> ''result'' \<Longrightarrow> hstep rs (del k rs)"
  by (simp add: hstep_def)

lemma tidy_hwrites_run:
  "\<forall>a \<in> set ws. tidy_hwrite a \<Longrightarrow>
     snd (run_hactions ws sp) = snd sp \<and> hstep (res (fst sp)) (res (fst (run_hactions ws sp)))"
proof (induction ws sp rule: run_hactions.induct)
  case (2 k v as s p)
  then show ?case using hstep_trans [OF hstep_put [of k "res s" v]] by simp
next
  case (3 k as s p)
  then show ?case using hstep_trans [OF hstep_del [of k "res s"]] by simp
qed auto

lemma run_hactions_append:
  "\<forall>a \<in> set ws. tidy_hwrite a \<Longrightarrow> run_hactions (ws @ bs) sp = run_hactions bs (run_hactions ws sp)"
  by (induction ws sp rule: run_hactions.induct) auto

lemma tidy_hsignal_run:
  "tidy_hsignal sig \<Longrightarrow>
     fst (run_hactions [sig] (s, Pending)) = s \<and> snd (run_hactions [sig] (s, Pending)) \<noteq> Pending
     \<and> (\<forall>e. snd (run_hactions [sig] (s, Pending)) = Rejected e \<longrightarrow> truthy e)"
  by (cases sig) (auto simp: handlerCallback_def split: if_splits)

lemma tidy_runHandler: "tidy_handler h \<Longrightarrow> hgood s (runHandler d h s)"
  and tidy_runReturnHandlers: "\<forall>h \<in> set hs. tidy_handler h \<Longrightarrow> hgood s (runReturnHandlers d hs s)"
proof (induction d h s and d hs s rule: runHandler_runReturnHandlers.induct)
  case (1 d v s)
  then show ?case by (simp add: hgood_def notAFunction_def)
next
  case (2 d f s)
  let ?s0 = "s\<lparr>log := log s @ [Ran d (Fn f)]\<rparr>"
  define ws where "ws = butlast (f (req s) (res s))"
  define sig where "sig = last (f (req s) (res s))"
  from 2 have sc: "f (req s) (res s) = ws @ [sig]"
    "\<forall>a \<in> set ws. tidy_hwrite a" "tidy_hsignal sig"
    by (simp_all add: ws_def sig_def)
  obtain s1 p1 where W: "run_hactions ws (?s0, Pending) = (s1, p1)" by (metis surj_pair)
  from tidy_hwrites_run [OF sc(2), of "(?s0, Pending)"] W
  have w: "p1 = Pending" "hstep (res s) (res s1)" by simp_all
  have "runHandler d (Fn f) s = run_hactions [sig] (s1, Pending)"
    using sc(1) run_hactions_append [OF sc(2), of "[sig]" "(?s0, Pending)"] W w(1) by simp
  then show ?case
    using tidy_hsignal_run [OF sc(3), of s1] w(2) by (simp add: hgood_def)
next
  case (3 d hs s)
  let ?s0 = "s\<lparr>log := log s @ [Ran d (Forward hs)]\<rparr>"
  from 3 have "hgood ?s0 (runReturnHandlers (Suc d) hs ?s0)" by simp
  then show ?case
    by (auto simp: hgood_def handlerCallback_def split: prod.splits promise.splits)
next
  case (4 d s)
  then show ?case by (simp add: hgood_def)
next
  case (5 d h hs s)
  obtain s' p where H: "runHandler d h s = (s', p)" by (metis surj_pair)
  from 5 H have g1: "hgood s (s', p)" by simp
  show ?case
  proof (cases p)
    case (Resolved u)
    from "5.IH"(2) [OF H [symmetric] Resolved] "5.prems"
    have "hgood s' (runReturnHandlers d hs s')" by simp
    with g1 H Resolved show ?thesis
      using hstep_trans by (auto simp: hgood_def)
  next
    case (Rejected e)
    with g1 H show ?thesis by (simp add: hgood_def)
  next
    case Pending
    with g1 H show ?thesis by (simp add: hgood_def)
  qed
qed


lemma mstep_put: "k \<noteq> ''id'' \<Longrightarrow> k \<noteq> ''jsonrpc'' \<Longrightarrow> (k = ''error'' \<longrightarrow> truthy v) \<Longrightarrow> mstep rs (put k v rs)"
  by (auto simp: mstep_def error_ok_def)

lemma mstep_del: "k \<noteq> ''id'' \<Longrightarrow> k \<noteq> ''jsonrpc'' \<Longrightarrow> mstep rs (del k rs)"
  by (auto simp: mstep_def error_ok_def)

lemma tidy_writes_run:
  "\<forall>a \<in> set ws. tidy_write a \<Longrightarrow>
     snd (run_actions x ws t) = snd t \<and> mstep (res (fst t)) (res (fst (run_actions x ws t)))"
proof (induction x ws t rule: run_actions.induct)
  case (2 x k v as s hs p)
  then show ?case using mstep_trans [OF mstep_put [of k v "res s"]] by simp
next
  case (3 x k as s hs p)
  then show ?case using mstep_trans [OF mstep_del [of k "res s"]] by simp
qed auto

lemma tidy_write_quiet: "tidy_write a \<Longrightarrow> \<not> is_signal a"
  by (cases a) auto

lemma end_cb_good:
  "error_ok (res s) \<Longrightarrow> \<forall>h \<in> set hs. tidy_handler h \<Longrightarrow> mgood s (end_cb x e (s, hs, Pending))"
  by (auto simp: mgood_def mstep_def error_ok_def Let_def truthy_get_has)

lemma next_cb_good:
  "error_ok (res s) \<Longrightarrow> \<forall>h \<in> set hs. tidy_handler h \<Longrightarrow> tidy_handler h' \<Longrightarrow>
     mgood s (next_cb x h' (s, hs, Pending))"
  by (auto simp: mgood_def mstep_def error_ok_def Let_def truthy_get_has)

lemma tidy_signal_run:
  "tidy_signal sig \<Longrightarrow> error_ok (res s) \<Longrightarrow> \<forall>h \<in> set hs. tidy_handler h \<Longrightarrow>
     mgood s (run_actions x [sig] (s, hs, Pending))"
  using end_cb_good next_cb_good
  by (cases sig) (auto simp del: end_cb.simps next_cb.simps)

lemma mgood_mstep:
  "mstep (res s0) (res s) \<Longrightarrow> mgood s t \<Longrightarrow> mgood s0 t"
  using mstep_trans by (auto simp: mgood_def)

lemma tidy_runMiddleware:
  "tidy m \<Longrightarrow> error_ok (res s) \<Longrightarrow> \<forall>h \<in> set hs. tidy_handler h \<Longrightarrow>
     mgood s (runMiddleware x d m s hs)"
  and tidy_run_stack:
  "\<forall>m \<in> set ms. tidy m \<Longrightarrow> error_ok (res s) \<Longrightarrow> \<forall>h \<in> set hs. tidy_handler h \<Longrightarrow> \<not> snd r \<Longrightarrow>
     mgood s (run_stack x d ms s hs r)"
proof (induction x d m s hs and x d ms s hs r rule: runMiddleware_run_stack.induct)
  case (1 x d f s hs)
  let ?s0 = "s\<lparr>log := log s @ [Invoked d (Middleware f)]\<rparr>"
  define ws where "ws = butlast (f (req s) (res s))"
  define sig where "sig = last (f (req s) (res s))"
  from "1.prems"(1) have sc: "f (req s) (res s) = ws @ [sig]"
    "\<forall>a \<in> set ws. tidy_write a" "tidy_signal sig"
    by (simp_all add: ws_def sig_def)
  have quiet: "\<forall>a \<in> set ws. \<not> is_signal a" using sc(2) tidy_write_quiet by blast
  obtain s1 hs1 p1 where W: "run_actions x ws (?s0, hs, Pending) = (s1, hs1, p1)"
    by (metis prod_cases3)
  from tidy_writes_run [OF sc(2), of x "(?s0, hs, Pending)"] W
  have w: "hs1 = hs" "p1 = Pending" "mstep (res s) (res s1)" by simp_all
  have ok1: "error_ok (res s1)" using w(3) "1.prems"(2) by (simp add: mstep_def)
  have "runMiddleware x d (Middleware f) s hs = run_actions x [sig] (s1, hs, Pending)"
    using sc(1) run_actions_append [OF quiet, of x "[sig]" "(?s0, hs, Pending)"] W w by simp
  then show ?case
    using mgood_mstep [OF w(3) tidy_signal_run [OF sc(3) ok1 "1.prems"(3), of x]] by simp
next
  case (2 x d stack s hs)
  let ?s0 = "s\<lparr>log := log s @ [Invoked d (AsMiddleware stack)]\<rparr>"
  obtain s1 ihs p where R: "run_stack x (Suc d) stack ?s0 [] (Null, False) = (s1, ihs, p)"
    by (metis prod_cases3)
  from "2.IH" "2.prems" have "mgood ?s0 (run_stack x (Suc d) stack ?s0 [] (Null, False))"
    by simp
  with R obtain me c where g: "p = Resolved (me, c)" "c \<and> \<not> truthy me \<longrightarrow> \<not> has ''error'' (res s1)"
    "mstep (res s) (res s1)" "error_ok (res s1)" "\<forall>h \<in> set ihs. tidy_handler h"
    by (auto simp: mgood_def)
  show ?case
  proof (cases c)
    case True
    obtain s2 q where H: "runReturnHandlers (Suc d) (rev ihs) s1 = (s2, q)" by (metis surj_pair)
    from tidy_runReturnHandlers [of "rev ihs" s1 "Suc d"] g(5) H
    have hg: "q \<noteq> Pending" "\<forall>e. q = Rejected e \<longrightarrow> truthy e" "hstep (res s1) (res s2)"
      by (simp_all add: hgood_def)
    have m2: "mstep (res s) (res s2)" using g(3) hstep_mstep [OF hg(3)] mstep_trans by blast
    have ok2: "error_ok (res s2)" using hstep_mstep [OF hg(3)] g(4) by (simp add: mstep_def)
    have "mgood s2 (runMiddleware x d (AsMiddleware stack) s hs)"
      using R g(1) True H hg(1) end_cb_good [OF ok2 "2.prems"(3)]
      by (cases q) (simp_all del: end_cb.simps)
    then show ?thesis using mgood_mstep [OF m2] by blast
  next
    case False
    have fwd: "tidy_handler (Forward (rev ihs))" using g(5) by simp
    have "mgood s1 (runMiddleware x d (AsMiddleware stack) s hs)"
      using R g(1) False next_cb_good [OF g(4) "2.prems"(3) fwd]
      by (simp del: next_cb.simps)
    then show ?thesis using mgood_mstep [OF g(3)] by blast
  qed
next
  case (3 x d s hs r)
  then show ?case by (cases r) (auto simp: mgood_def)
next
  case (4 x d m ms s hs r)
  obtain s' hs' p where M: "runMiddleware x d m s hs = (s', hs', p)" by (metis prod_cases3)
  from "4.IH"(1) "4.prems" M have g1: "mgood s (s', hs', p)" by simp
  then obtain e c where g: "p = Resolved (e, c)" "mstep (res s) (res s')" "error_ok (res s')"
    "\<forall>h \<in> set hs'. tidy_handler h"
    by (auto simp: mgood_def)
  show ?case
  proof (cases c)
    case True
    with M g(1) g1 show ?thesis by simp
  next
    case False
    from "4.IH"(2) [OF M [symmetric] refl g(1) refl False] "4.prems"(1) g(3,4)
    have "mgood s' (run_stack x d ms s' hs' (e, c))" using False by simp
    with M g(1) False show ?thesis using mgood_mstep [OF g(2)] by simp
  qed
qed


text \<open>
  Claim C1, as far as it holds. For every well-formed request and every stack of tidy
  middleware, the engine calls back with a response whose identifier and version tag are
  those of the request, and which has a result or an error but not both; it has the error
  exactly when the callback's error argument is truthy.
\<close>

theorem completion_invariant:
  assumes wf: "wellformed r" and tidy: "\<forall>m \<in> set stack. tidy m"
  shows "\<exists>err rs. callback (handle_internal x stack r) = Some (err, rs)
     \<and> promiseHandle x stack r = Resolved rs
     \<and> get ''id'' rs = get ''id'' (own_props r)
     \<and> get ''jsonrpc'' rs = get ''jsonrpc'' (own_props r)
     \<and> (has ''result'' rs \<longleftrightarrow> \<not> has ''error'' rs)
     \<and> (has ''error'' rs \<longleftrightarrow> truthy err)"
proof -
  let ?s0 = "initial r"
  have ok0: "error_ok (res ?s0)" by (simp add: initial_def error_ok_def)
  obtain s1 hs p where R: "run_stack x 0 stack ?s0 [] (Null, False) = (s1, hs, p)"
    by (metis prod_cases3)
  from tidy_run_stack [OF tidy ok0, of "[]" "(Null, False)" x 0] R
  obtain e c where g: "p = Resolved (e, c)" "c \<and> \<not> truthy e \<longrightarrow> \<not> has ''error'' (res s1)"
    "mstep (res ?s0) (res s1)" "error_ok (res s1)" "\<forall>h \<in> set hs. tidy_handler h"
    by (auto simp: mgood_def)
  have A: "runAllMiddleware x 0 stack ?s0 = (s1, Resolved (e, c, rev hs))"
    using R g(1) by (simp add: runAllMiddleware_def)
  have id1: "get ''id'' (res s1) = get ''id'' (own_props r)"
    "get ''jsonrpc'' (res s1) = get ''jsonrpc'' (own_props r)"
    using g(3) by (simp_all add: mstep_def initial_def)
  obtain s2 q where H: "runReturnHandlers 0 (rev hs) s1 = (s2, q)" by (metis surj_pair)
  from tidy_runReturnHandlers [of "rev hs" s1 0] g(5) H
  have hg: "q \<noteq> Pending" "\<forall>e. q = Rejected e \<longrightarrow> truthy e" "hstep (res s1) (res s2)"
    by (simp_all add: hgood_def)
  have id2: "get ''id'' (res s2) = get ''id'' (own_props r)"
    "get ''jsonrpc'' (res s2) = get ''jsonrpc'' (own_props r)"
    using hg(3) id1 by (simp_all add: hstep_def)
  define patch where "patch = (\<lambda>err rs. let rs1 = del ''result'' rs in
      if \<not> truthy (get ''error'' rs1) then put ''error'' (Obj (serializeError x err)) rs1 else rs1)"
  have patch: "get ''id'' (patch err rs) = get ''id'' rs \<and> get ''jsonrpc'' (patch err rs) = get ''jsonrpc'' rs
      \<and> has ''error'' (patch err rs) \<and> \<not> has ''result'' (patch err rs)" for err rs
    by (auto simp: patch_def Let_def truthy_get_has)
  consider (violation) v where "checkForCompletion x (req s1) (res s1) c = Some v"
    | (failed) err where "checkForCompletion x (req s1) (res s1) c = None" "q = Rejected err"
    | (error) "checkForCompletion x (req s1) (res s1) c = None" "q = Resolved ()" "truthy e"
    | (success) "checkForCompletion x (req s1) (res s1) c = None" "q = Resolved ()" "\<not> truthy e"
    using hg(1) by (cases q) auto
  then show ?thesis
  proof cases
    case violation
    then have tv: "truthy v" by (auto simp: checkForCompletion_def split: if_splits)
    have "callback (handle_internal x stack r) = Some (v, patch v (res s1))"
      using wellformed_checks [OF wf] A violation tv
      by (simp add: handle_internal_def processRequest_def patch_def Let_def)
    with tv patch [of v "res s1"] id1 show ?thesis by (simp add: promiseHandle_def)
  next
    case failed
    then have te: "truthy err" using hg(2) by simp
    have "callback (handle_internal x stack r) = Some (err, patch err (res s2))"
      using wellformed_checks [OF wf] A H failed te
      by (simp add: handle_internal_def processRequest_def patch_def Let_def)
    with te patch [of err "res s2"] id2 show ?thesis by (simp add: promiseHandle_def)
  next
    case error
    have "callback (handle_internal x stack r) = Some (e, patch e (res s2))"
      using wellformed_checks [OF wf] A H error
      by (simp add: handle_internal_def processRequest_def patch_def Let_def)
    with error(3) patch [of e "res s2"] id2 show ?thesis by (simp add: promiseHandle_def)
  next
    case success
    from success(1) have c: "c" "has ''result'' (res s1) \<or> has ''error'' (res s1)"
      by (auto simp: checkForCompletion_def split: if_splits)
    with g(2) success(3) have "\<not> has ''error'' (res s1)" "has ''result'' (res s1)" by auto
    with hg(3) have r2: "has ''result'' (res s2)" "\<not> has ''error'' (res s2)"
      by (auto simp: hstep_def)
    have "callback (handle_internal x stack r) = Some (Null, res s2)"
      using wellformed_checks [OF wf] A H success
      by (simp add: handle_internal_def processRequest_def Let_def)
    with r2 id2 show ?thesis by (simp add: promiseHandle_def)
  qed
qed

theorem completion_invariant_witness:
  "wellformed sample_request
   \<and> tidy (registering (marking ''a''))
   \<and> tidy (fixed_result (Num 1))
   \<and> callback (handle_internal sample_ext [registering (marking ''a''), fixed_result (Num 1)]
        sample_request) =
       Some (Null, [(''id'', Num 7), (''jsonrpc'', Str ''2.0''), (''result'', Num 1),
                    (''a'', Bool True)])
   \<and> tidy failing
   \<and> callback (handle_internal sample_ext [failing] sample_request) =
       Some (Str ''boom'', [(''id'', Num 7), (''jsonrpc'', Str ''2.0''),
          (''error'', Obj [(''code'', Num (- 32603)), (''data'', Str ''boom'')])])"
  using completion_invariant [of sample_request "[registering (marking ''a''), fixed_result (Num 1)]"
      sample_ext]
    completion_invariant [of sample_request "[failing]" sample_ext]
  by (simp add: sample_defs engine_defs wellformed_def)

text \<open>
  The claim says so for every stack. A middleware that writes \<^verbatim>\<open>res.error = null\<close> next to
  a result and calls \<^verbatim>\<open>end()\<close> passes the completion check (\<^verbatim>\<open>"error" in res\<close>) while
  \<^verbatim>\<open>end\<close> sees no error (\<^verbatim>\<open>err || res.error\<close> is falsy): the response has both
  properties, and without the result it is a successful response whose only content is the
  error \<^verbatim>\<open>null\<close>. A middleware that overwrites \<^verbatim>\<open>res.id\<close> changes the identifier, and a
  middleware that never signals leaves the dispatch without a response.
\<close>

theorem completion_invariant_counterexample:
  "wellformed sample_request
   \<and> callback (handle_internal sample_ext [nulling] sample_request) =
     Some (Null, [(''id'', Num 7), (''jsonrpc'', Str ''2.0''), (''result'', Num 1), (''error'', Null)])
   \<and> has ''result'' [(''id'', Num 7), (''jsonrpc'', Str ''2.0''), (''result'', Num 1), (''error'', Null)]
   \<and> has ''error'' [(''id'', Num 7), (''jsonrpc'', Str ''2.0''), (''result'', Num 1), (''error'', Null)]
   \<and> callback (handle_internal sample_ext [null_error] sample_request) =
     Some (Null, [(''id'', Num 7), (''jsonrpc'', Str ''2.0''), (''error'', Null)])
   \<and> callback (handle_internal sample_ext [renumbering] sample_request) =
     Some (Null, [(''id'', Num 99), (''jsonrpc'', Str ''2.0''), (''result'', Num 1)])
   \<and> get ''id'' (own_props sample_request) = Num 7
   \<and> callback (handle_internal sample_ext [silent] sample_request) = None"
  by (simp add: sample_defs engine_defs wellformed_def)

end
